theory Spec2Isabelle
  imports Main "HOL-Library.AList" "HOL-Library.Sublist"
begin

section \<open>The operation queue of veed-queue.js\<close>

text \<open>
  The class \<^verbatim>\<open>VeedQueue\<close> keeps a \<^verbatim>\<open>Map\<close> from operation id to a mutable
  operation object, an array of pending ids, and a handful of flags. Its methods run on
  a single-threaded event loop: every method body runs without interruption up to its
  next \<^verbatim>\<open>await\<close>. The embedding therefore has one state record, one function per
  method, and one function per resumption point of the asynchronous drain loop
  \<^verbatim>\<open>processQueue\<close>. What the runtime delivers (timers, settled promises, HTTP calls)
  is an \<open>event\<close>; \<open>step\<close> runs the code that the event triggers.
\<close>

subsection \<open>Data model\<close>

type_synonym opid = string
type_synonym payload = string

datatype OperationStatus = QUEUED | PROCESSING | COMPLETED | FAILED

text \<open>The object literal built in \<^verbatim>\<open>enqueue\<close>; \<^verbatim>\<open>null\<close> is \<open>None\<close>.\<close>

record operation =
  op_id :: opid
  status :: OperationStatus
  imageUrl :: string
  prompt :: string
  options :: string
  createdAt :: int
  updatedAt :: int
  position :: nat
  result :: "payload option"
  error :: "string option"
  progress :: "string option"

text \<open>The lines written by \<^verbatim>\<open>console.log\<close> and \<^verbatim>\<open>console.error\<close>.\<close>

datatype log_line =
    LogInitializing
  | LogServiceReady bool
  | LogInitFailed string
  | LogEnqueued opid nat
  | LogCancelled opid
  | LogServiceNotReady
  | LogProcessing opid
  | LogCompleted opid
  | LogFailed opid string
  | LogCleaned opid
  | LogCleanedCount nat

text \<open>
  Where the suspended call of \<^verbatim>\<open>processQueue\<close> waits: nowhere (\<open>Idle\<close>), at
  \<^verbatim>\<open>await initVeedService()\<close> inside its own call of \<^verbatim>\<open>initializeService\<close>
  (\<open>AwaitInit\<close>), in the 100 ms polling loop of \<^verbatim>\<open>initializeService\<close> while somebody
  else's initialization is in flight (\<open>PollInit\<close>), or at
  \<^verbatim>\<open>await this.executeWithTimeout(operation)\<close> (\<open>AwaitExec\<close>).
\<close>

datatype worker = Idle | AwaitInit | PollInit | AwaitExec opid

text \<open>
  A pending call of \<^verbatim>\<open>executeOperation\<close> waits first for \<^verbatim>\<open>getVeedService()\<close>,
  then for \<^verbatim>\<open>service.generateVideo(...)\<close>.
\<close>

datatype exec_stage = AwaitService | AwaitGenerate

record veed_queue =
  operations :: "(opid \<times> operation) list"
  queue :: "opid list"
  currentOperation :: "opid option"
  isProcessing :: bool
  serviceReady :: bool
  serviceInitializing :: bool
  worker :: worker
  executing :: "(opid \<times> exec_stage) list"
  timers :: "(opid \<times> nat) list"
  console :: "log_line list"

text \<open>
  \<open>operations\<close> is the \<^verbatim>\<open>Map\<close> in insertion order: \<^verbatim>\<open>set\<close> is \<open>AList.update\<close>,
  \<^verbatim>\<open>get\<close> is \<open>map_of\<close>, \<^verbatim>\<open>delete\<close> is \<open>AList.delete\<close>, and an assignment to a field
  of an object obtained from the map is \<open>AList.map_entry\<close>. \<open>executing\<close> and \<open>timers\<close>
  are the promises and timeouts that the runtime holds for the queue: the timeout of
  \<^verbatim>\<open>executeWithTimeout\<close> is never cleared, and the call of \<^verbatim>\<open>executeOperation\<close>
  keeps running after the race is lost.
\<close>

definition maxQueueSize :: nat where
  "maxQueueSize = 10"

definition operationTimeout :: nat where
  "operationTimeout = 300000"

definition operationTTL :: int where
  "operationTTL = 30 * 60 * 1000"

definition new_VeedQueue :: veed_queue where
  "new_VeedQueue =
     \<lparr>operations = [], queue = [], currentOperation = None, isProcessing = False,
      serviceReady = False, serviceInitializing = False, worker = Idle,
      executing = [], timers = [], console = []\<rparr>"

text \<open>JavaScript truthiness of \<^verbatim>\<open>this.currentOperation\<close>: \<^verbatim>\<open>null\<close> and the empty
  string are falsy.\<close>

fun truthy :: "opid option \<Rightarrow> bool" where
  "truthy None = False"
| "truthy (Some i) = (i \<noteq> [])"

text \<open>\<^verbatim>\<open>Array.prototype.indexOf\<close>: the first index, or \<open>-1\<close>.\<close>

fun indexOf :: "'a list \<Rightarrow> 'a \<Rightarrow> int" where
  "indexOf [] x = -1"
| "indexOf (y # ys) x =
     (if y = x then 0 else (let i = indexOf ys x in if i < 0 then -1 else i + 1))"

subsection \<open>The drain loop\<close>

text \<open>
  The body of the \<^verbatim>\<open>while\<close> loop of \<^verbatim>\<open>processQueue\<close>, run until the next
  \<^verbatim>\<open>await\<close> or until the loop is left. With \<open>at_shift = False\<close> it starts at the
  loop test; with \<open>at_shift = True\<close> it starts at \<^verbatim>\<open>this.queue.shift()\<close>, where the
  loop resumes after a successful initialization. \<^verbatim>\<open>shift()\<close> on an empty array gives
  \<^verbatim>\<open>undefined\<close>, for which the map has no entry, so the loop \<^verbatim>\<open>continue\<close>s.
\<close>

function processQueue_from :: "bool \<Rightarrow> int \<Rightarrow> veed_queue \<Rightarrow> veed_queue" where
  "processQueue_from at_shift now s =
     (if \<not> at_shift \<and> queue s = [] then s\<lparr>isProcessing := False, worker := Idle\<rparr>
      else if \<not> at_shift \<and> \<not> serviceReady s then
        (if serviceInitializing s then s\<lparr>worker := PollInit\<rparr>
         else s\<lparr>serviceInitializing := True, worker := AwaitInit,
                console := console s @ [LogInitializing]\<rparr>)
      else
        (case queue s of
           [] \<Rightarrow> processQueue_from False now s
         | operationId # rest \<Rightarrow>
             (case map_of (operations s) operationId of
                None \<Rightarrow> processQueue_from False now (s\<lparr>queue := rest\<rparr>)
              | Some operation \<Rightarrow>
                  s\<lparr>queue := rest,
                    currentOperation := Some operationId,
                    operations := AList.map_entry operationId
                      (\<lambda>op. op\<lparr>status := PROCESSING, updatedAt := now\<rparr>) (operations s),
                    console := console s @ [LogProcessing operationId],
                    timers := timers s @ [(operationId, operationTimeout)],
                    executing := executing s @ [(operationId, AwaitService)],
                    worker := AwaitExec operationId\<rparr>)))"
  by pat_completeness auto
termination
  by (relation "measure (\<lambda>(at_shift, now, s). 2 * length (queue s) + (if at_shift then 1 else 0))")
     auto

declare processQueue_from.simps [simp del]

text \<open>\<^verbatim>\<open>processQueue()\<close> as called from \<^verbatim>\<open>enqueue\<close>.\<close>

definition processQueue :: "int \<Rightarrow> veed_queue \<Rightarrow> veed_queue" where
  "processQueue now s =
     (if isProcessing s then s else processQueue_from False now (s\<lparr>isProcessing := True\<rparr>))"

text \<open>The loop after \<^verbatim>\<open>await this.initializeService()\<close> has returned \<open>ready\<close>.\<close>

definition processQueue_after_init :: "bool \<Rightarrow> int \<Rightarrow> veed_queue \<Rightarrow> veed_queue" where
  "processQueue_after_init ready now s =
     (if \<not> ready then
        s\<lparr>operations :=
            fold (\<lambda>opId. AList.map_entry opId
                    (\<lambda>op. op\<lparr>status := FAILED, error := Some ''Veed service not available'',
                              updatedAt := now\<rparr>))
                 (queue s) (operations s),
          queue := [],
          console := console s @ [LogServiceNotReady],
          isProcessing := False,
          worker := Idle\<rparr>
      else processQueue_from True now s)"

text \<open>The loop after \<^verbatim>\<open>await this.executeWithTimeout(operation)\<close> has settled:
  \<open>Inr\<close> is the value of the race, \<open>Inl\<close> the message of the error it rejected with.\<close>

definition processQueue_after_exec ::
  "opid \<Rightarrow> string + payload \<Rightarrow> int \<Rightarrow> veed_queue \<Rightarrow> veed_queue" where
  "processQueue_after_exec operationId outcome now s =
     (let s1 = (case outcome of
                  Inr res \<Rightarrow>
                    s\<lparr>operations := AList.map_entry operationId
                        (\<lambda>op. op\<lparr>status := COMPLETED, result := Some res, updatedAt := now\<rparr>)
                        (operations s),
                      console := console s @ [LogCompleted operationId]\<rparr>
                | Inl msg \<Rightarrow>
                    s\<lparr>operations := AList.map_entry operationId
                        (\<lambda>op. op\<lparr>status := FAILED, error := Some msg, updatedAt := now\<rparr>)
                        (operations s),
                      console := console s @ [LogFailed operationId msg]\<rparr>)
      in processQueue_from False now (s1\<lparr>currentOperation := None\<rparr>))"

subsection \<open>The public methods\<close>

datatype queue_exn = QueueFull nat

record enqueue_result =
  r_operationId :: opid
  r_status :: OperationStatus
  r_position :: nat
  r_queueLength :: nat

text \<open>\<^verbatim>\<open>enqueue\<close>; \<open>operationId\<close> is what \<^verbatim>\<open>crypto.randomUUID()\<close> returned and \<open>now\<close>
  what \<^verbatim>\<open>Date.now()\<close> returns during the call. \<open>Inl (QueueFull n)\<close> is the thrown
  \<^verbatim>\<open>Error\<close> "Queue is full. Maximum n pending operations allowed."\<close>

definition enqueue ::
  "opid \<Rightarrow> string \<Rightarrow> string \<Rightarrow> string \<Rightarrow> int \<Rightarrow> veed_queue
     \<Rightarrow> (queue_exn + enqueue_result) \<times> veed_queue" where
  "enqueue operationId imageUrl' prompt' options' now s =
     (let pendingCount = length (queue s) + (if truthy (currentOperation s) then 1 else 0) in
      if pendingCount \<ge> maxQueueSize then (Inl (QueueFull maxQueueSize), s)
      else
        let operation =
              \<lparr>op_id = operationId, status = QUEUED, imageUrl = imageUrl', prompt = prompt',
               options = options', createdAt = now, updatedAt = now,
               position = length (queue s) + 1, result = None, error = None,
               progress = None\<rparr>;
            s1 = s\<lparr>operations := AList.update operationId operation (operations s),
                   queue := queue s @ [operationId],
                   console := console s @ [LogEnqueued operationId (position operation)]\<rparr>;
            s2 = processQueue now s1;
            operation' = (case map_of (operations s2) operationId of
                            Some op \<Rightarrow> op | None \<Rightarrow> operation)
        in (Inr \<lparr>r_operationId = operationId, r_status = status operation',
                 r_position = position operation', r_queueLength = length (queue s2)\<rparr>,
            s2))"

record status_view =
  v_operationId :: opid
  v_status :: OperationStatus
  v_position :: "int option"
  v_queueLength :: nat
  v_progress :: "string option"
  v_createdAt :: int
  v_updatedAt :: int
  v_result :: "payload option"
  v_error :: "string option"

text \<open>\<^verbatim>\<open>getStatus\<close>; the state is returned as well, as the method leaves it.\<close>

definition getStatus :: "opid \<Rightarrow> veed_queue \<Rightarrow> status_view option \<times> veed_queue" where
  "getStatus operationId s =
     (case map_of (operations s) operationId of
        None \<Rightarrow> (None, s)
      | Some operation \<Rightarrow>
          (Some \<lparr>v_operationId = op_id operation,
                 v_status = status operation,
                 v_position = (if status operation = QUEUED
                               then Some (indexOf (queue s) operationId + 1) else None),
                 v_queueLength = length (queue s),
                 v_progress = progress operation,
                 v_createdAt = createdAt operation,
                 v_updatedAt = updatedAt operation,
                 v_result = result operation,
                 v_error = error operation\<rparr>,
           s))"

text \<open>The result object of \<^verbatim>\<open>cancel\<close>: \<^verbatim>\<open>{ success: true }\<close>, or
  \<^verbatim>\<open>{ success: false, error }\<close> with the error "Operation not found" or
  "Cannot cancel operation in <status> status".\<close>

datatype cancel_result = CancelSuccess | OperationNotFound | CannotCancel OperationStatus

definition cancel :: "opid \<Rightarrow> int \<Rightarrow> veed_queue \<Rightarrow> cancel_result \<times> veed_queue" where
  "cancel operationId now s =
     (case map_of (operations s) operationId of
        None \<Rightarrow> (OperationNotFound, s)
      | Some operation \<Rightarrow>
          if status operation \<noteq> QUEUED then (CannotCancel (status operation), s)
          else
            (CancelSuccess,
             s\<lparr>queue := remove1 operationId (queue s),
               operations := AList.map_entry operationId
                 (\<lambda>op. op\<lparr>status := FAILED, error := Some ''Cancelled by user'',
                           updatedAt := now\<rparr>) (operations s),
               console := console s @ [LogCancelled operationId]\<rparr>))"

text \<open>\<^verbatim>\<open>cleanupOldOperations\<close>, run by the 60 s interval timer.\<close>

definition expired :: "int \<Rightarrow> operation \<Rightarrow> bool" where
  "expired now op \<longleftrightarrow>
     (status op = COMPLETED \<or> status op = FAILED) \<and> now - updatedAt op > operationTTL"

definition cleanupOldOperations :: "int \<Rightarrow> veed_queue \<Rightarrow> veed_queue" where
  "cleanupOldOperations now s =
     (let toDelete = map fst (filter (\<lambda>(i, op). expired now op) (operations s)) in
      s\<lparr>operations := fold AList.delete toDelete (operations s),
        console := console s @ map LogCleaned toDelete
                   @ (if length toDelete > 0 then [LogCleanedCount (length toDelete)] else [])\<rparr>)"

subsection \<open>What the runtime delivers\<close>

text \<open>\<^verbatim>\<open>initializeService()\<close> called from outside the drain loop (the route
  \<^verbatim>\<open>POST /api/veed/init\<close>), up to its first \<^verbatim>\<open>await\<close>.\<close>

definition initializeService_call :: "veed_queue \<Rightarrow> veed_queue" where
  "initializeService_call s =
     (if serviceInitializing s then s
      else if serviceReady s then s
      else s\<lparr>serviceInitializing := True, console := console s @ [LogInitializing]\<rparr>)"

text \<open>The rest of \<^verbatim>\<open>initializeService\<close> once \<^verbatim>\<open>initVeedService()\<close> has settled
  (\<open>Inr\<close> its value, \<open>Inl\<close> the message of the error it threw). When the drain loop made
  the call, the loop resumes with the value returned.\<close>

definition initializeService_settled :: "string + bool \<Rightarrow> int \<Rightarrow> veed_queue \<Rightarrow> veed_queue" where
  "initializeService_settled outcome now s =
     (let s1 = (case outcome of
                  Inr ready \<Rightarrow> s\<lparr>serviceReady := ready,
                                 console := console s @ [LogServiceReady ready]\<rparr>
                | Inl msg \<Rightarrow> s\<lparr>serviceReady := False,
                               console := console s @ [LogInitFailed msg]\<rparr>);
          s2 = s1\<lparr>serviceInitializing := False\<rparr>
      in if worker s = AwaitInit then processQueue_after_init (serviceReady s2) now s2 else s2)"

text \<open>One turn of the polling loop in \<^verbatim>\<open>initializeService\<close>, for the drain loop.\<close>

definition initializeService_poll :: "int \<Rightarrow> veed_queue \<Rightarrow> veed_queue" where
  "initializeService_poll now s =
     (if serviceInitializing s then s else processQueue_after_init (serviceReady s) now s)"

text \<open>\<^verbatim>\<open>updateProgress('Starting video generation...')\<close> in \<^verbatim>\<open>executeOperation\<close>,
  on the operation object the call was given.\<close>

definition executeOperation_progress :: "opid \<Rightarrow> int \<Rightarrow> veed_queue \<Rightarrow> veed_queue" where
  "executeOperation_progress operationId now s =
     s\<lparr>operations := AList.map_entry operationId
          (\<lambda>op. op\<lparr>progress := Some ''Starting video generation...'', updatedAt := now\<rparr>)
          (operations s),
       executing := AList.update operationId AwaitGenerate (executing s)\<rparr>"

text \<open>\<^verbatim>\<open>Promise.race\<close>: the first of the two promises to settle resumes the drain loop,
  which then waits for that operation no more; the other one settles unheard.\<close>

definition race_settled :: "opid \<Rightarrow> string + payload \<Rightarrow> int \<Rightarrow> veed_queue \<Rightarrow> veed_queue" where
  "race_settled operationId outcome now s =
     (if worker s = AwaitExec operationId then processQueue_after_exec operationId outcome now s
      else s)"

datatype event =
    Enqueue opid string string string int
  | Cancel opid int
  | InitCall
  | InitSettled "string + bool" int
  | PollWake int
  | ServiceObtained opid int
  | ExecSettled opid "string + payload" int
  | TimerFired opid int
  | CleanupTick int

text \<open>An event that cannot happen in a state (a promise that is not pending, a timer
  that is not set) leaves the state as it is.\<close>

fun step :: "event \<Rightarrow> veed_queue \<Rightarrow> veed_queue" where
  "step (Enqueue operationId imageUrl' prompt' options' now) s =
     snd (enqueue operationId imageUrl' prompt' options' now s)"
| "step (Cancel operationId now) s = snd (cancel operationId now s)"
| "step InitCall s = initializeService_call s"
| "step (InitSettled outcome now) s =
     (if serviceInitializing s then initializeService_settled outcome now s else s)"
| "step (PollWake now) s =
     (if worker s = PollInit then initializeService_poll now s else s)"
| "step (ServiceObtained operationId now) s =
     (if map_of (executing s) operationId = Some AwaitService
      then executeOperation_progress operationId now s else s)"
| "step (ExecSettled operationId outcome now) s =
     (case map_of (executing s) operationId of
        None \<Rightarrow> s
      | Some stage \<Rightarrow>
          if stage = AwaitService \<and> \<not> isl outcome then s
          else race_settled operationId outcome now
                 (s\<lparr>executing := AList.delete operationId (executing s)\<rparr>))"
| "step (TimerFired operationId now) s =
     (case map_of (timers s) operationId of
        None \<Rightarrow> s
      | Some delay \<Rightarrow>
          race_settled operationId (Inl ''Operation timed out'') now
            (s\<lparr>timers := AList.delete operationId (timers s)\<rparr>))"
| "step (CleanupTick now) s = cleanupOldOperations now s"

text \<open>A run: the events in the order the event loop delivers them.\<close>

definition run :: "event list \<Rightarrow> veed_queue \<Rightarrow> veed_queue" where
  "run evs s = fold step evs s"

text \<open>The values \<^verbatim>\<open>crypto.randomUUID()\<close> returned during a run. A version 4 UUID is a
  string of 36 characters, and the generator is taken never to repeat one.\<close>

fun uuid_of :: "event \<Rightarrow> opid list" where
  "uuid_of (Enqueue operationId imageUrl' prompt' options' now) = [operationId]"
| "uuid_of e = []"

definition uuids :: "event list \<Rightarrow> opid list" where
  "uuids evs = concat (map uuid_of evs)"

definition fresh_uuids :: "event list \<Rightarrow> bool" where
  "fresh_uuids evs \<longleftrightarrow> distinct (uuids evs) \<and> [] \<notin> set (uuids evs)"

subsection \<open>Consistency of the queue state\<close>

text \<open>
  The predicates below say how the map, the pending array, \<^verbatim>\<open>currentOperation\<close>, the
  flags and the suspended drain loop fit together between two events. \<open>consistent\<close> holds
  initially and after every event, provided \<^verbatim>\<open>crypto.randomUUID()\<close> never repeats itself.
\<close>

type_synonym store = "(opid \<times> operation) list"

definition status_in :: "store \<Rightarrow> opid \<Rightarrow> OperationStatus option" where
  "status_in ops i = map_option status (map_of ops i)"

definition record_ok :: "opid \<Rightarrow> operation \<Rightarrow> bool" where
  "record_ok i op \<longleftrightarrow>
     op_id op = i \<and> (result op \<noteq> None \<longrightarrow> status op = COMPLETED)
     \<and> (error op \<noteq> None \<longrightarrow> status op = FAILED)"

definition store_ok :: "store \<Rightarrow> bool" where
  "store_ok ops \<longleftrightarrow>
     distinct (map fst ops) \<and> map_of ops [] = None \<and>
     (\<forall>i op. map_of ops i = Some op \<longrightarrow> record_ok i op)"

definition queue_ok :: "store \<Rightarrow> opid list \<Rightarrow> bool" where
  "queue_ok ops q \<longleftrightarrow> distinct q \<and> (\<forall>i. i \<in> set q \<longleftrightarrow> status_in ops i = Some QUEUED)"

definition current_ok :: "store \<Rightarrow> opid option \<Rightarrow> bool" where
  "current_ok ops cur \<longleftrightarrow> (\<forall>i. cur = Some i \<longleftrightarrow> status_in ops i = Some PROCESSING)"

definition worker_ok :: "veed_queue \<Rightarrow> bool" where
  "worker_ok s \<longleftrightarrow>
     (\<forall>i. worker s = AwaitExec i \<longleftrightarrow> currentOperation s = Some i) \<and>
     (isProcessing s \<longleftrightarrow> worker s \<noteq> Idle) \<and>
     (worker s = Idle \<longrightarrow> queue s = []) \<and>
     (worker s = AwaitInit \<longrightarrow> serviceInitializing s) \<and>
     (serviceInitializing s \<longrightarrow> \<not> serviceReady s) \<and>
     (currentOperation s \<noteq> None \<longrightarrow> serviceReady s)"

definition pending_ok ::
  "opid list \<Rightarrow> opid option \<Rightarrow> (opid \<times> nat) list \<Rightarrow> (opid \<times> exec_stage) list \<Rightarrow> bool" where
  "pending_ok q cur tms exs \<longleftrightarrow>
     (\<forall>i\<in>set q. map_of tms i = None \<and> map_of exs i = None) \<and>
     (\<forall>i. cur = Some i \<longrightarrow> map_of tms i = Some operationTimeout \<and> map_of exs i \<noteq> None)"

definition consistent :: "veed_queue \<Rightarrow> bool" where
  "consistent s \<longleftrightarrow>
     store_ok (operations s) \<and> queue_ok (operations s) (queue s) \<and>
     current_ok (operations s) (currentOperation s) \<and> worker_ok s \<and>
     pending_ok (queue s) (currentOperation s) (timers s) (executing s)"

definition start_head :: "int \<Rightarrow> veed_queue \<Rightarrow> veed_queue" where
  "start_head now s =
     s\<lparr>queue := tl (queue s),
       currentOperation := Some (hd (queue s)),
       operations := AList.map_entry (hd (queue s))
         (\<lambda>op. op\<lparr>status := PROCESSING, updatedAt := now\<rparr>) (operations s),
       console := console s @ [LogProcessing (hd (queue s))],
       timers := timers s @ [(hd (queue s), operationTimeout)],
       executing := executing s @ [(hd (queue s), AwaitService)],
       worker := AwaitExec (hd (queue s))\<rparr>"

definition loop_pre :: "veed_queue \<Rightarrow> bool" where
  "loop_pre s \<longleftrightarrow>
     store_ok (operations s) \<and> queue_ok (operations s) (queue s) \<and>
     current_ok (operations s) None \<and> 
     pending_ok (queue s) None (timers s) (executing s) \<and>
     currentOperation s = None \<and> isProcessing s \<and>
     (serviceInitializing s \<longrightarrow> \<not> serviceReady s)"

definition known :: "veed_queue \<Rightarrow> opid set" where
  "known s = fst ` set (operations s) \<union> fst ` set (timers s) \<union> fst ` set (executing s)"

definition init_result :: "string + bool \<Rightarrow> bool" where
  "init_result outcome = (case outcome of Inr ready \<Rightarrow> ready | Inl msg \<Rightarrow> False)"

definition init_log :: "string + bool \<Rightarrow> log_line" where
  "init_log outcome = (case outcome of Inr ready \<Rightarrow> LogServiceReady ready | Inl msg \<Rightarrow> LogInitFailed msg)"

subsection \<open>How a record may change\<close>

text \<open>\<open>transition\<close> holds the four edges of the life of a record. \<open>record_step\<close>
  relates a record before and after an event: either its status, result and error are
  as before, or the status moved along one edge. \<open>entry_step\<close> does the same for a key
  of the map: a record does not appear, and it disappears only when terminal.\<close>

definition transition :: "OperationStatus \<Rightarrow> OperationStatus \<Rightarrow> bool" where
  "transition a b \<longleftrightarrow>
     (a = QUEUED \<and> b = PROCESSING) \<or> (a = PROCESSING \<and> b = COMPLETED) \<or>
     (a = PROCESSING \<and> b = FAILED) \<or> (a = QUEUED \<and> b = FAILED)"

definition record_step :: "operation \<Rightarrow> operation \<Rightarrow> bool" where
  "record_step op op' \<longleftrightarrow>
     (status op' = status op \<and> result op' = result op \<and> error op' = error op) \<or>
     transition (status op) (status op')"

fun entry_step :: "operation option \<Rightarrow> operation option \<Rightarrow> bool" where
  "entry_step (Some op) (Some op') = record_step op op'"
| "entry_step (Some op) None = (status op = COMPLETED \<or> status op = FAILED)"
| "entry_step None (Some op') = False"
| "entry_step None None = True"




subsection \<open>What the claims speak of\<close>

text \<open>\<open>failed_and_continued i msg s s'\<close>: from \<open>s\<close> to \<open>s'\<close> the operation \<open>i\<close> has failed with
  \<open>msg\<close>, and the drain loop has gone on: it is idle if nothing was pending, and otherwise
  processes the head of the pending queue, under a new timeout.\<close>

definition failed_and_continued :: "opid \<Rightarrow> string \<Rightarrow> veed_queue \<Rightarrow> veed_queue \<Rightarrow> bool" where
  "failed_and_continued i msg s s' \<longleftrightarrow>
     (case map_of (operations s') i of
        None \<Rightarrow> False
      | Some op \<Rightarrow> status op = FAILED \<and> error op = Some msg \<and> result op = None) \<and>
     (case queue s of
        [] \<Rightarrow> queue s' = [] \<and> currentOperation s' = None \<and> worker s' = Idle \<and> \<not> isProcessing s'
      | n # rest \<Rightarrow>
          queue s' = rest \<and> currentOperation s' = Some n \<and> worker s' = AwaitExec n \<and>
          isProcessing s' \<and> status_in (operations s') n = Some PROCESSING \<and>
          map_of (timers s') n = Some operationTimeout)"

text \<open>\<open>all_failed_unavailable now s s'\<close>: from \<open>s\<close> to \<open>s'\<close> every pending operation has
  failed with "Veed service not available", the pending queue is empty and the drain loop
  has stopped; all other records are untouched.\<close>

definition all_failed_unavailable :: "int \<Rightarrow> veed_queue \<Rightarrow> veed_queue \<Rightarrow> bool" where
  "all_failed_unavailable now s s' \<longleftrightarrow>
     queue s' = [] \<and> \<not> isProcessing s' \<and> worker s' = Idle \<and> currentOperation s' = None \<and>
     \<not> serviceReady s' \<and>
     (\<forall>i\<in>set (queue s).
        \<exists>op. map_of (operations s) i = Some op \<and> status op = QUEUED \<and>
             map_of (operations s') i =
               Some (op\<lparr>status := FAILED, error := Some ''Veed service not available'',
                        updatedAt := now\<rparr>)) \<and>
     (\<forall>i. i \<notin> set (queue s) \<longrightarrow> map_of (operations s') i = map_of (operations s) i)"

text \<open>\<open>admit\<close> is \<^verbatim>\<open>enqueue\<close> from the call of \<^verbatim>\<open>crypto.randomUUID()\<close> to the call of
  \<^verbatim>\<open>processQueue()\<close>: the record is created with status \<open>QUEUED\<close> and its id appended to
  the pending queue.\<close>

definition admit :: "opid \<Rightarrow> string \<Rightarrow> string \<Rightarrow> string \<Rightarrow> int \<Rightarrow> veed_queue \<Rightarrow> veed_queue" where
  "admit u a b c now s =
     s\<lparr>operations := AList.update u
          \<lparr>op_id = u, status = QUEUED, imageUrl = a, prompt = b, options = c,
           createdAt = now, updatedAt = now, position = length (queue s) + 1,
           result = None, error = None, progress = None\<rparr> (operations s),
       queue := queue s @ [u],
       console := console s @ [LogEnqueued u (length (queue s) + 1)]\<rparr>"

text \<open>The number of records that are \<open>QUEUED\<close> or \<open>PROCESSING\<close>.\<close>

definition pending_records :: "veed_queue \<Rightarrow> nat" where
  "pending_records s =
     length (filter (\<lambda>(i, op). status op = QUEUED \<or> status op = PROCESSING) (operations s))"

text \<open>\<open>admitted u a b c now s r s'\<close>: \<^verbatim>\<open>enqueue\<close> with the fresh id \<open>u\<close> has returned \<open>r\<close> and
  left the state \<open>s'\<close>. The position returned is the length of the pending queue before
  the call plus one. The record is still \<open>QUEUED\<close>, at the end of the pending queue,
  unless the drain loop was idle and the service ready: then the drain loop has picked it
  up at once, and the pending queue is empty again.\<close>

definition admitted ::
  "opid \<Rightarrow> string \<Rightarrow> string \<Rightarrow> string \<Rightarrow> int \<Rightarrow> veed_queue \<Rightarrow> enqueue_result \<Rightarrow> veed_queue \<Rightarrow> bool" where
  "admitted u a b c now s r s' \<longleftrightarrow>
     map_of (operations s) u = None \<and>
     r_operationId r = u \<and> r_position r = length (queue s) + 1 \<and>
     r_queueLength r = length (queue s') \<and>
     (\<forall>j. j \<noteq> u \<longrightarrow> map_of (operations s') j = map_of (operations s) j) \<and>
     (case map_of (operations s') u of
        None \<Rightarrow> False
      | Some op \<Rightarrow>
          op_id op = u \<and> imageUrl op = a \<and> prompt op = b \<and> options op = c \<and>
          createdAt op = now \<and> position op = length (queue s) + 1 \<and>
          result op = None \<and> error op = None \<and> r_status r = status op \<and>
          (if isProcessing s \<or> \<not> serviceReady s
           then status op = QUEUED \<and> queue s' = queue s @ [u] \<and>
                currentOperation s' = currentOperation s \<and>
                r_queueLength r = r_position r
           else status op = PROCESSING \<and> queue s = [] \<and> queue s' = [] \<and>
                currentOperation s' = Some u \<and> r_position r = 1 \<and> r_queueLength r = 0))"

subsection \<open>The order of execution, read off the records\<close>

text \<open>What an event did to the records, by comparing the store before and after it:
  the ids whose record is \<open>PROCESSING\<close> now and was not before, the ids whose record is
  new, and the ids whose record went from \<open>QUEUED\<close> straight to \<open>FAILED\<close> (cancelled, or
  failed with the rest of the queue when the service could not be initialized).\<close>

definition became_processing :: "veed_queue \<Rightarrow> veed_queue \<Rightarrow> opid list" where
  "became_processing s s' =
     filter (\<lambda>i. status_in (operations s') i = Some PROCESSING \<and>
                 status_in (operations s) i \<noteq> Some PROCESSING)
       (map fst (operations s'))"

definition created :: "veed_queue \<Rightarrow> veed_queue \<Rightarrow> opid list" where
  "created s s' = filter (\<lambda>i. map_of (operations s) i = None) (map fst (operations s'))"

definition dropped :: "veed_queue \<Rightarrow> veed_queue \<Rightarrow> opid list" where
  "dropped s s' =
     filter (\<lambda>i. status_in (operations s) i = Some QUEUED \<and>
                 status_in (operations s') i = Some FAILED)
       (map fst (operations s))"

text \<open>These collected along a run, event after event.\<close>

fun trace_of :: "(veed_queue \<Rightarrow> veed_queue \<Rightarrow> opid list) \<Rightarrow> event list \<Rightarrow> veed_queue \<Rightarrow> opid list" where
  "trace_of f [] s = []"
| "trace_of f (e # evs) s = f s (step e s) @ trace_of f evs (step e s)"

text \<open>The order in which records reached \<open>PROCESSING\<close>, the order in which records
  were created, and the records that left the queue unprocessed, in a run from the
  initial state.\<close>

definition processing_order :: "event list \<Rightarrow> opid list" where
  "processing_order evs = trace_of became_processing evs new_VeedQueue"

definition admitted_order :: "event list \<Rightarrow> opid list" where
  "admitted_order evs = trace_of created evs new_VeedQueue"

definition dropped_ids :: "event list \<Rightarrow> opid list" where
  "dropped_ids evs = trace_of dropped evs new_VeedQueue"

text \<open>What one event may do to the pending queue \<open>q\<close> and the current operation
  \<open>cur\<close>, with \<open>c\<close> the ids it created: append them; or append them and take the head;
  or remove one id; or empty the queue.\<close>

definition schedule_shape ::
  "opid list \<Rightarrow> opid option \<Rightarrow> opid list \<Rightarrow> opid list \<Rightarrow> opid option \<Rightarrow> bool" where
  "schedule_shape q cur c q' cur' \<longleftrightarrow>
     (q' = q @ c \<and> (cur' = cur \<or> cur' = None)) \<or>
     (\<exists>h. q @ c = h # q' \<and> cur' = Some h) \<or>
     (\<exists>i. c = [] \<and> q' = remove1 i q \<and> cur' = cur) \<or>
     (c = [] \<and> q' = [] \<and> cur' = cur)"

text \<open>The records that reached \<open>PROCESSING\<close>, followed by the pending queue, are the
  records created, in that order, without those that left the queue unprocessed.\<close>

definition schedule_ok :: "event list \<Rightarrow> veed_queue \<Rightarrow> bool" where
  "schedule_ok evs s \<longleftrightarrow>
     processing_order evs @ queue s =
       filter (\<lambda>i. i \<notin> set (dropped_ids evs)) (admitted_order evs) \<and>
     subseq (admitted_order evs) (uuids evs) \<and>
     set (dropped_ids evs) \<subseteq> set (uuids evs)"

subsection \<open>Sample runs\<close>

text \<open>Two requests arrive while the service starts up, a third once the first is
  being processed.\<close>

definition run_one_processing :: "event list" where
  "run_one_processing =
     [Enqueue ''a'' ''img'' ''go'' ''{}'' 10, Enqueue ''b'' ''img'' ''go'' ''{}'' 20,
      InitSettled (Inr True) 30, Enqueue ''c'' ''img'' ''go'' ''{}'' 40]"

text \<open>Three requests; the second is cancelled before the service is ready; the first
  fails in the executor.\<close>

definition run_cancel_second :: "event list" where
  "run_cancel_second =
     [Enqueue ''A'' ''img'' ''go'' ''{}'' 10, Enqueue ''B'' ''img'' ''go'' ''{}'' 20,
      Enqueue ''C'' ''img'' ''go'' ''{}'' 30, Cancel ''B'' 40, InitSettled (Inr True) 50,
      ServiceObtained ''A'' 60, ExecSettled ''A'' (Inl ''Generate button not found'') 70]"

text \<open>One request, picked up once the service is ready; the executor has obtained the
  service and is generating.\<close>

definition run_until_processing :: "event list" where
  "run_until_processing =
     [Enqueue ''A'' ''img'' ''go'' ''{}'' 10, InitSettled (Inr True) 20,
      ServiceObtained ''A'' 30]"

text \<open>Three requests wait for the service to start.\<close>

definition run_three_waiting :: "event list" where
  "run_three_waiting =
     [Enqueue ''A'' ''img'' ''go'' ''{}'' 10, Enqueue ''B'' ''img'' ''go'' ''{}'' 20,
      Enqueue ''C'' ''img'' ''go'' ''{}'' 30]"

text \<open>Three requests while the service is ready; the first two complete, one minute and
  a thousand seconds after the start.\<close>

definition run_two_finished :: "event list" where
  "run_two_finished =
     [Enqueue ''A'' ''img'' ''go'' ''{}'' 0, InitSettled (Inr True) 1000,
      Enqueue ''B'' ''img'' ''go'' ''{}'' 2000, Enqueue ''C'' ''img'' ''go'' ''{}'' 3000,
      ServiceObtained ''A'' 4000, ExecSettled ''A'' (Inr ''a.mp4'') 60000,
      ServiceObtained ''B'' 61000, ExecSettled ''B'' (Inr ''b.mp4'') 1000000]"



section \<open>Every event keeps the state consistent\<close>

lemma processQueue_from_char:
  assumes "\<forall>i\<in>set (queue s). map_of (operations s) i \<noteq> None"
  shows "processQueue_from b now s =
     (if queue s = [] then s\<lparr>isProcessing := False, worker := Idle\<rparr>
      else if \<not> b \<and> \<not> serviceReady s then
        (if serviceInitializing s then s\<lparr>worker := PollInit\<rparr>
         else s\<lparr>serviceInitializing := True, worker := AwaitInit,
                console := console s @ [LogInitializing]\<rparr>)
      else start_head now s)"
proof (cases "queue s")
  case Nil
  then show ?thesis
    by (cases b) (simp_all add: processQueue_from.simps[of _ now s])
next
  case (Cons i rest)
  with assms obtain op where "map_of (operations s) i = Some op" by auto
  with Cons show ?thesis
    by (simp add: processQueue_from.simps[of _ now s] start_head_def)
qed

lemma map_of_snoc:
  "map_of (xs @ [(i, v)]) j = (case map_of xs j of Some w \<Rightarrow> Some w | None \<Rightarrow> if j = i then Some v else None)"
  by (induction xs) auto

lemma lookup_map_entry:
  "map_of (AList.map_entry k f xs) j = (if j = k then map_option f (map_of xs k) else map_of xs j)"
  by (simp add: AList.map_of_map_entry split: option.splits)

lemma queue_ok_lookup: "queue_ok ops q \<Longrightarrow> \<forall>i\<in>set q. map_of ops i \<noteq> None"
  by (auto simp: queue_ok_def status_in_def)

lemma status_in_map_entry:
  "status_in (AList.map_entry k f ops) j =
     (if j = k then map_option (\<lambda>op. status (f op)) (map_of ops k) else status_in ops j)"
  by (simp add: status_in_def lookup_map_entry option.map_comp comp_def)

lemma store_ok_map_entry:
  assumes "store_ok ops"
    "\<And>op. map_of ops k = Some op \<Longrightarrow> record_ok k op \<Longrightarrow> record_ok k (f op)"
  shows "store_ok (AList.map_entry k f ops)"
  using assms unfolding store_ok_def
  by (auto simp add: lookup_map_entry AList.distinct_map_entry simp del: map_of_eq_Some_iff split: if_splits)

lemma start_head_wf:
  assumes pre: "loop_pre s" and sr: "serviceReady s" and ne: "queue s \<noteq> []"
  shows "consistent (start_head now s)"
proof -
  obtain i rest where q: "queue s = i # rest" using ne by (cases "queue s") auto
  let ?f = "\<lambda>op. op\<lparr>status := PROCESSING, updatedAt := now\<rparr>"
  let ?ops = "AList.map_entry i ?f (operations s)"
  from pre have st: "store_ok (operations s)" and qo: "queue_ok (operations s) (queue s)"
    and co: "current_ok (operations s) None"
    and po: "pending_ok (queue s) None (timers s) (executing s)"
    and cur: "currentOperation s = None"
    by (simp_all add: loop_pre_def)
  from qo q have sti: "status_in (operations s) i = Some QUEUED" and nin: "i \<notin> set rest"
    and dr: "distinct rest"
    by (auto simp: queue_ok_def)
  then obtain op0 where op0: "map_of (operations s) i = Some op0" "status op0 = QUEUED"
    by (auto simp: status_in_def)
  have so: "status_in ?ops j = (if j = i then Some PROCESSING else status_in (operations s) j)" for j
    by (simp add: status_in_map_entry op0)
  have A: "store_ok ?ops"
  proof (rule store_ok_map_entry[OF st])
    fix op assume "map_of (operations s) i = Some op" "record_ok i op"
    with op0 show "record_ok i (?f op)" by (auto simp: record_ok_def)
  qed
  have B: "queue_ok ?ops rest"
    using qo nin dr by (auto simp: so q queue_ok_def)
  have C: "current_ok ?ops (Some i)"
    using co by (auto simp: so current_ok_def)
  have D: "worker_ok (start_head now s)"
    using sr pre by (auto simp: worker_ok_def start_head_def q loop_pre_def)
  have E: "pending_ok rest (Some i) (timers s @ [(i, operationTimeout)]) (executing s @ [(i, AwaitService)])"
    using po nin by (auto simp: pending_ok_def q map_of_snoc simp del: map_of_append)
  show ?thesis using A B C D E by (simp add: consistent_def start_head_def q)
qed

lemma processQueue_from_wf:
  assumes pre: "loop_pre s" and b: "b \<longrightarrow> serviceReady s"
  shows "consistent (processQueue_from b now s)"
proof -
  from pre have qo: "queue_ok (operations s) (queue s)"
    by (simp_all add: loop_pre_def)
  note ch = processQueue_from_char[OF queue_ok_lookup[OF qo], of b now]
  consider (empty) "queue s = []"
    | (init) "queue s \<noteq> []" "\<not> b" "\<not> serviceReady s"
    | (start) "queue s \<noteq> []" "serviceReady s"
    using b by blast
  then show ?thesis
  proof cases
    case empty
    then have *: "processQueue_from b now s = s\<lparr>isProcessing := False, worker := Idle\<rparr>"
      by (simp add: ch)
    show ?thesis unfolding * using pre empty
      by (simp add: consistent_def loop_pre_def worker_ok_def)
  next
    case init
    then have *: "processQueue_from b now s =
        (if serviceInitializing s then s\<lparr>worker := PollInit\<rparr>
         else s\<lparr>serviceInitializing := True, worker := AwaitInit,
                console := console s @ [LogInitializing]\<rparr>)"
      using ch by simp
    show ?thesis unfolding * using pre init
      by (simp add: consistent_def loop_pre_def worker_ok_def)
  next
    case start
    then have *: "processQueue_from b now s = start_head now s"
      by (simp add: ch)
    show ?thesis unfolding * by (rule start_head_wf[OF pre start(2) start(1)])
  qed
qed

lemma status_in_update:
  "status_in (AList.update k v ops) j = (if j = k then Some (status v) else status_in ops j)"
  by (simp add: status_in_def AList.update_conv')

lemma store_ok_update:
  assumes "store_ok ops" "record_ok k v" "k \<noteq> []"
  shows "store_ok (AList.update k v ops)"
  using assms unfolding store_ok_def
  by (auto simp add: AList.update_conv' AList.distinct_update simp del: map_of_eq_Some_iff split: if_splits)

lemma map_of_fold_delete:
  "map_of (fold AList.delete ks ops) j = (if j \<in> set ks then None else map_of ops j)"
  by (induction ks arbitrary: ops) (auto simp: AList.delete_conv')

lemma distinct_fold_delete:
  "distinct (map fst ops) \<Longrightarrow> distinct (map fst (fold AList.delete ks ops))"
  by (induction ks arbitrary: ops) (auto simp: AList.distinct_delete)

lemma map_of_fold_map_entry:
  "map_of (fold (\<lambda>k. AList.map_entry k f) ks ops) j =
     (if j \<in> set ks then map_option ((f ^^ count_list ks j)) (map_of ops j) else map_of ops j)"
proof (induction ks arbitrary: ops)
  case Nil
  then show ?case by simp
next
  case (Cons k ks)
  show ?case
    by (cases "map_of ops j") (auto simp add: Cons lookup_map_entry funpow_swap1)
qed

lemma distinct_fold_map_entry:
  "distinct (map fst ops) \<Longrightarrow> distinct (map fst (fold (\<lambda>k. AList.map_entry k f) ks ops))"
  by (induction ks arbitrary: ops) (auto simp: AList.distinct_map_entry)

lemma map_of_fold_map_entry_distinct:
  assumes "distinct ks"
  shows "map_of (fold (\<lambda>k. AList.map_entry k f) ks ops) j =
     (if j \<in> set ks then map_option f (map_of ops j) else map_of ops j)"
proof -
  have "j \<in> set ks \<Longrightarrow> count_list ks j = 1"
    using assms by (induction ks) auto
  then show ?thesis by (simp add: map_of_fold_map_entry)
qed

lemma wf_loop_pre:
  assumes "consistent s" "currentOperation s = None"
  shows "loop_pre (s\<lparr>isProcessing := True\<rparr>)"
  using assms by (simp add: consistent_def loop_pre_def worker_ok_def pending_ok_def)

lemma status_in_keys: "status_in ops i = Some st \<Longrightarrow> i \<in> fst ` set ops"
  by (auto simp: status_in_def dest: map_of_SomeD intro: rev_image_eqI)

lemma processQueue_from_known:
  assumes "queue_ok (operations s) (queue s)"
  shows "known (processQueue_from b now s) \<subseteq> known s"
proof -
  note ch = processQueue_from_char[OF queue_ok_lookup[OF assms], of b now]
  have "queue s \<noteq> [] \<Longrightarrow> hd (queue s) \<in> fst ` set (operations s)"
    using assms status_in_keys[of "operations s" "hd (queue s)" QUEUED]
    by (cases "queue s") (auto simp: queue_ok_def)
  moreover have "known (start_head now s) = known s \<union> (if queue s = [] then {hd []} else {hd (queue s)})"
    by (auto simp add: known_def start_head_def AList.dom_map_entry)
  ultimately have "queue s \<noteq> [] \<Longrightarrow> known (start_head now s) \<subseteq> known s"
    by (auto simp: known_def)
  moreover have "known (s\<lparr>isProcessing := False, worker := Idle\<rparr>) = known s"
     "known (s\<lparr>worker := PollInit\<rparr>) = known s"
     "known (s\<lparr>serviceInitializing := True, worker := AwaitInit,
                console := console s @ [LogInitializing]\<rparr>) = known s"
    by (simp_all add: known_def)
  ultimately show ?thesis
    unfolding ch by (simp del: subset_Un_eq)
qed

lemma worker_ok_idle:
  assumes "worker_ok s" "\<not> isProcessing s"
  shows "currentOperation s = None" "queue s = []" "worker s = Idle"
proof -
  from assms show w: "worker s = Idle" unfolding worker_ok_def by blast
  from assms w show "queue s = []" unfolding worker_ok_def by blast
  from assms w have "\<forall>i. currentOperation s \<noteq> Some i" unfolding worker_ok_def
    by (metis worker.distinct(5))
  then show "currentOperation s = None" by (cases "currentOperation s") auto
qed

lemma enqueue_wf:
  assumes consistent: "consistent s" and ne: "u \<noteq> []" and fresh: "u \<notin> known s"
  shows "consistent (snd (enqueue u a b c now s))"
proof (cases "maxQueueSize \<le> length (queue s) + (if truthy (currentOperation s) then 1 else 0)")
  case True
  then show ?thesis using consistent by (simp add: enqueue_def)
next
  case False
  let ?op = "\<lparr>op_id = u, status = QUEUED, imageUrl = a, prompt = b,
               options = c, createdAt = now, updatedAt = now,
               position = length (queue s) + 1, result = None, error = None,
               progress = None\<rparr>"
  let ?s1 = "s\<lparr>operations := AList.update u ?op (operations s),
                   queue := queue s @ [u],
                   console := console s @ [LogEnqueued u (position ?op)]\<rparr>"
  have e: "snd (enqueue u a b c now s) = processQueue now ?s1"
    using False by (simp add: enqueue_def Let_def)
  from fresh have nk: "u \<notin> fst ` set (operations s)" and nt: "map_of (timers s) u = None"
    and nx: "map_of (executing s) u = None"
    by (auto simp: known_def map_of_eq_None_iff)
  from nk have su: "status_in (operations s) u = None"
    by (simp add: status_in_def map_of_eq_None_iff)
  from consistent have st: "store_ok (operations s)" and qo: "queue_ok (operations s) (queue s)"
    and co: "current_ok (operations s) (currentOperation s)" and wo: "worker_ok s"
    and po: "pending_ok (queue s) (currentOperation s) (timers s) (executing s)"
    by (simp_all add: consistent_def)
  have A: "store_ok (operations ?s1)"
    using store_ok_update[OF st _ ne, of ?op] by (simp add: record_ok_def)
  have B: "queue_ok (operations ?s1) (queue ?s1)"
    using qo su by (auto simp: queue_ok_def status_in_update)
  have C: "current_ok (operations ?s1) (currentOperation ?s1)"
    using co su by (auto simp: current_ok_def status_in_update)
  have E: "pending_ok (queue ?s1) (currentOperation ?s1) (timers ?s1) (executing ?s1)"
    using po nt nx by (auto simp: pending_ok_def)
  show ?thesis
  proof (cases "isProcessing s")
    case True
    then have p: "processQueue now ?s1 = ?s1" by (simp add: processQueue_def)
    have "worker_ok ?s1" using wo True by (auto simp: worker_ok_def)
    then have "consistent ?s1" using A B C E unfolding consistent_def by blast
    then have "consistent (processQueue now ?s1)" by (subst p)
    then show ?thesis by (subst e)
  next
    case False
    then have cur: "currentOperation s = None" using worker_ok_idle[OF wo] by simp
    have si: "serviceInitializing s \<longrightarrow> \<not> serviceReady s" using wo unfolding worker_ok_def by blast
    have "loop_pre (?s1\<lparr>isProcessing := True\<rparr>)"
      unfolding loop_pre_def using A B C E cur si by simp
    from processQueue_from_wf[OF this, of False now]
    have "consistent (processQueue now ?s1)" using False by (simp add: processQueue_def)
    then show ?thesis by (subst e)
  qed
qed

lemma enqueue_known:
  assumes consistent: "consistent s" and fresh: "u \<notin> known s"
  shows "known (snd (enqueue u a b c now s)) \<subseteq> insert u (known s)"
proof (cases "maxQueueSize \<le> length (queue s) + (if truthy (currentOperation s) then 1 else 0)")
  case True
  then show ?thesis by (auto simp add: enqueue_def)
next
  case False
  let ?op = "\<lparr>op_id = u, status = QUEUED, imageUrl = a, prompt = b,
               options = c, createdAt = now, updatedAt = now,
               position = length (queue s) + 1, result = None, error = None,
               progress = None\<rparr>"
  let ?s1 = "s\<lparr>operations := AList.update u ?op (operations s),
                   queue := queue s @ [u],
                   console := console s @ [LogEnqueued u (position ?op)]\<rparr>"
  have e: "snd (enqueue u a b c now s) = processQueue now ?s1"
    using False by (simp add: enqueue_def Let_def)
  from fresh have su: "status_in (operations s) u = None"
    by (simp add: status_in_def map_of_eq_None_iff known_def)
  from consistent have qo: "queue_ok (operations s) (queue s)" by (simp add: consistent_def)
  have B: "queue_ok (operations ?s1) (queue ?s1)"
    using qo su by (auto simp: queue_ok_def status_in_update)
  then have B': "queue_ok (operations (?s1\<lparr>isProcessing := True\<rparr>)) (queue (?s1\<lparr>isProcessing := True\<rparr>))"
    by simp
  have k1: "known ?s1 \<subseteq> insert u (known s)"
    by (auto simp: known_def AList.dom_update)
  have "known (processQueue now ?s1) \<subseteq> known ?s1"
    using processQueue_from_known[OF B', of False now]
    by (auto simp: processQueue_def known_def)
  with k1 have "known (processQueue now ?s1) \<subseteq> insert u (known s)" by blast
  then show ?thesis by (subst e)
qed

lemma wf_parts:
  assumes "consistent s"
  shows "store_ok (operations s)" "queue_ok (operations s) (queue s)"
    "current_ok (operations s) (currentOperation s)" "worker_ok s"
    "pending_ok (queue s) (currentOperation s) (timers s) (executing s)"
  using assms by (simp_all add: consistent_def)

lemma status_in_remove_queue:
  assumes "queue_ok ops q" "map_of ops k = Some op0" "status op0 = QUEUED"
    "status (f op0) \<noteq> QUEUED"
  shows "queue_ok (AList.map_entry k f ops) (remove1 k q)"
proof -
  have d: "distinct q" using assms(1) by (simp add: queue_ok_def)
  have "i \<in> set (remove1 k q) \<longleftrightarrow> status_in (AList.map_entry k f ops) i = Some QUEUED" for i
    using assms d by (auto simp: queue_ok_def status_in_map_entry)
  then show ?thesis using d by (simp add: queue_ok_def)
qed

lemma cancel_wf:
  assumes consistent: "consistent s"
  shows "consistent (snd (cancel i now s))"
proof (cases "map_of (operations s) i")
  case None
  then show ?thesis using consistent by (simp add: cancel_def)
next
  case (Some op0)
  show ?thesis
  proof (cases "status op0 = QUEUED")
    case False
    then show ?thesis using consistent Some by (simp add: cancel_def)
  next
    case True
    let ?f = "\<lambda>op. op\<lparr>status := FAILED, error := Some ''Cancelled by user'', updatedAt := now\<rparr>"
    let ?ops = "AList.map_entry i ?f (operations s)"
    let ?s1 = "s\<lparr>queue := remove1 i (queue s), operations := ?ops,
                  console := console s @ [LogCancelled i]\<rparr>"
    have e: "snd (cancel i now s) = ?s1" using Some True by (simp add: cancel_def)
    note p = wf_parts[OF consistent]
    have so: "status_in ?ops j = (if j = i then Some FAILED else status_in (operations s) j)" for j
      by (simp add: status_in_map_entry Some)
    have A: "store_ok ?ops"
    proof (rule store_ok_map_entry[OF p(1)])
      fix op assume "map_of (operations s) i = Some op" "record_ok i op"
      with Some True show "record_ok i (?f op)" by (auto simp: record_ok_def)
    qed
    have B: "queue_ok ?ops (remove1 i (queue s))"
      by (rule status_in_remove_queue[OF p(2) Some True]) simp
    have si: "status_in (operations s) i = Some QUEUED" using Some True by (simp add: status_in_def)
    have C: "current_ok ?ops (currentOperation s)"
      using p(3) si by (auto simp: current_ok_def so)
    have ci: "currentOperation s \<noteq> Some i" using p(3) si by (auto simp: current_ok_def)
    have D: "worker_ok ?s1" using p(4) unfolding worker_ok_def by auto
    have E: "pending_ok (remove1 i (queue s)) (currentOperation s) (timers s) (executing s)"
      using p(5) unfolding pending_ok_def by (auto dest: notin_set_remove1)
    have "consistent ?s1" unfolding consistent_def using A B C D E by simp
    then show ?thesis by (subst e)
  qed
qed

lemma cancel_known: "known (snd (cancel i now s)) = known s"
  by (auto simp: cancel_def known_def AList.dom_map_entry split: option.splits)

lemma initializeService_call_wf: "consistent s \<Longrightarrow> consistent (initializeService_call s)"
  unfolding consistent_def initializeService_call_def worker_ok_def by auto

lemma initializeService_call_known: "known (initializeService_call s) = known s"
  by (simp add: initializeService_call_def known_def)

lemma status_in_fold_map_entry:
  assumes "distinct ks"
  shows "status_in (fold (\<lambda>k. AList.map_entry k f) ks ops) j =
     (if j \<in> set ks then map_option (\<lambda>op. status (f op)) (map_of ops j) else status_in ops j)"
  by (simp add: status_in_def map_of_fold_map_entry_distinct[OF assms] option.map_comp comp_def)

lemma store_ok_fold_map_entry:
  assumes "store_ok ops" "distinct ks"
    "\<And>k op. k \<in> set ks \<Longrightarrow> map_of ops k = Some op \<Longrightarrow> record_ok k op \<Longrightarrow> record_ok k (f op)"
  shows "store_ok (fold (\<lambda>k. AList.map_entry k f) ks ops)"
  using assms unfolding store_ok_def
  by (auto simp add: map_of_fold_map_entry_distinct distinct_fold_map_entry
        simp del: map_of_eq_Some_iff split: if_splits)

lemma processQueue_after_init_wf:
  assumes pre: "loop_pre s" and b: "ready \<longrightarrow> serviceReady s"
  shows "consistent (processQueue_after_init ready now s)"
proof (cases ready)
  case True
  then show ?thesis using processQueue_from_wf[OF pre, of True now] b
    by (simp add: processQueue_after_init_def)
next
  case False
  let ?f = "\<lambda>op. op\<lparr>status := FAILED, error := Some ''Veed service not available'',
                         updatedAt := now\<rparr>"
  let ?ops = "fold (\<lambda>opId. AList.map_entry opId ?f) (queue s) (operations s)"
  let ?s1 = "s\<lparr>operations := ?ops, queue := [],
                console := console s @ [LogServiceNotReady],
                isProcessing := False, worker := Idle\<rparr>"
  have e: "processQueue_after_init ready now s = ?s1"
    using False by (simp add: processQueue_after_init_def)
  from pre have st: "store_ok (operations s)" and qo: "queue_ok (operations s) (queue s)"
    and co: "current_ok (operations s) None"
    and cur: "currentOperation s = None"
    and si: "serviceInitializing s \<longrightarrow> \<not> serviceReady s"
    by (simp_all add: loop_pre_def)
  have d: "distinct (queue s)" using qo by (simp add: queue_ok_def)
  have ex: "j \<in> set (queue s) \<Longrightarrow> \<exists>op. map_of (operations s) j = Some op" for j
    using qo by (auto simp: queue_ok_def status_in_def)
  have so: "status_in ?ops j =
     (if j \<in> set (queue s) then Some FAILED else status_in (operations s) j)" for j
    using ex[of j] by (auto simp add: status_in_fold_map_entry[OF d])
  have A: "store_ok ?ops"
  proof (rule store_ok_fold_map_entry[OF st d])
    fix k op assume "k \<in> set (queue s)" "map_of (operations s) k = Some op" "record_ok k op"
    moreover from this qo have "status op = QUEUED" by (auto simp: queue_ok_def status_in_def)
    ultimately show "record_ok k (?f op)" by (auto simp: record_ok_def)
  qed
  have B: "queue_ok ?ops []"
    using qo by (auto simp: queue_ok_def so)
  have C: "current_ok ?ops None"
    using co by (auto simp: current_ok_def so)
  have D: "worker_ok ?s1" using si cur by (simp add: worker_ok_def)
  have E: "pending_ok [] None (timers s) (executing s)" by (simp add: pending_ok_def)
  have "consistent ?s1" unfolding consistent_def using A B C D E cur by simp
  then show ?thesis by (subst e)
qed

lemma processQueue_after_init_known:
  assumes "queue_ok (operations s) (queue s)"
  shows "known (processQueue_after_init ready now s) \<subseteq> known s"
proof (cases ready)
  case True
  then show ?thesis using processQueue_from_known[OF assms, of True now]
    by (simp add: processQueue_after_init_def)
next
  case False
  have "fst ` set (fold (\<lambda>k. AList.map_entry k f) ks ops) = fst ` set ops" for f ks and ops :: store
    by (induction ks arbitrary: ops) (simp_all add: AList.dom_map_entry)
  then show ?thesis using False
    by (simp add: processQueue_after_init_def known_def)
qed

lemma worker_ok_current:
  assumes "worker_ok s"
  shows "currentOperation s = Some i \<longleftrightarrow> worker s = AwaitExec i"
    "worker s \<noteq> Idle \<longleftrightarrow> isProcessing s"
    "serviceInitializing s \<Longrightarrow> \<not> serviceReady s"
    "serviceInitializing s \<Longrightarrow> currentOperation s = None"
proof -
  from assms show 1: "currentOperation s = Some i \<longleftrightarrow> worker s = AwaitExec i"
    unfolding worker_ok_def by blast
  from assms show "worker s \<noteq> Idle \<longleftrightarrow> isProcessing s" unfolding worker_ok_def by blast
  from assms show 3: "serviceInitializing s \<Longrightarrow> \<not> serviceReady s" unfolding worker_ok_def by blast
  from assms have "currentOperation s \<noteq> None \<longrightarrow> serviceReady s" unfolding worker_ok_def by blast
  with 3 show "serviceInitializing s \<Longrightarrow> currentOperation s = None" by blast
qed

lemma worker_not_exec_current:
  assumes "worker_ok s" "\<And>i. worker s \<noteq> AwaitExec i"
  shows "currentOperation s = None"
proof (cases "currentOperation s")
  case (Some i)
  then show ?thesis using worker_ok_current(1)[OF assms(1), of i] assms(2) by simp
qed simp

lemma initializeService_settled_char:
  "initializeService_settled outcome now s =
     (if worker s = AwaitInit
      then processQueue_after_init (init_result outcome) now
             (s\<lparr>serviceReady := init_result outcome,
                console := console s @ [init_log outcome], serviceInitializing := False\<rparr>)
      else s\<lparr>serviceReady := init_result outcome,
             console := console s @ [init_log outcome], serviceInitializing := False\<rparr>)"
  by (cases outcome) (simp_all add: initializeService_settled_def init_result_def init_log_def)

lemma initializeService_settled_wf:
  assumes consistent: "consistent s" and si: "serviceInitializing s"
  shows "consistent (initializeService_settled outcome now s)"
proof -
  note p = wf_parts[OF consistent]
  let ?s2 = "s\<lparr>serviceReady := init_result outcome,
                console := console s @ [init_log outcome], serviceInitializing := False\<rparr>"
  have cur: "currentOperation s = None" using worker_ok_current(4)[OF p(4) si] .
  show ?thesis
  proof (cases "worker s = AwaitInit")
    case True
    have ip: "isProcessing s" using worker_ok_current(2)[OF p(4)] True by simp
    have "loop_pre ?s2" unfolding loop_pre_def using p cur ip by simp
    from processQueue_after_init_wf[OF this, of "init_result outcome" now]
    show ?thesis using True by (simp add: initializeService_settled_char)
  next
    case False
    have "worker_ok ?s2" using p(4) cur False unfolding worker_ok_def by simp
    then have "consistent ?s2" unfolding consistent_def using p by simp
    then show ?thesis using False by (simp add: initializeService_settled_char)
  qed
qed

lemma initializeService_settled_known:
  assumes "queue_ok (operations s) (queue s)"
  shows "known (initializeService_settled outcome now s) \<subseteq> known s"
proof -
  let ?s2 = "s\<lparr>serviceReady := init_result outcome,
                console := console s @ [init_log outcome], serviceInitializing := False\<rparr>"
  have k: "known ?s2 = known s" by (simp add: known_def)
  have "queue_ok (operations ?s2) (queue ?s2)" using assms by simp
  from processQueue_after_init_known[OF this, of "init_result outcome" now] k
  show ?thesis by (simp add: initializeService_settled_char)
qed

lemma initializeService_poll_wf:
  assumes consistent: "consistent s" and w: "worker s = PollInit"
  shows "consistent (initializeService_poll now s)"
proof (cases "serviceInitializing s")
  case True
  then show ?thesis using consistent by (simp add: initializeService_poll_def)
next
  case False
  note p = wf_parts[OF consistent]
  have cur: "currentOperation s = None"
    by (rule worker_not_exec_current[OF p(4)]) (simp add: w)
  have ip: "isProcessing s" using worker_ok_current(2)[OF p(4)] w by simp
  have "loop_pre s" unfolding loop_pre_def using p cur ip False by simp
  from processQueue_after_init_wf[OF this, of "serviceReady s" now]
  show ?thesis using False by (simp add: initializeService_poll_def)
qed

lemma initializeService_poll_known:
  assumes "queue_ok (operations s) (queue s)"
  shows "known (initializeService_poll now s) \<subseteq> known s"
  using processQueue_after_init_known[OF assms, of "serviceReady s" now]
  by (simp add: initializeService_poll_def)

lemma executeOperation_progress_wf:
  assumes consistent: "consistent s" and ex: "map_of (executing s) i = Some AwaitService"
  shows "consistent (executeOperation_progress i now s)"
proof -
  note p = wf_parts[OF consistent]
  let ?f = "\<lambda>op. op\<lparr>progress := Some ''Starting video generation...'', updatedAt := now\<rparr>"
  let ?ops = "AList.map_entry i ?f (operations s)"
  let ?exs = "AList.update i AwaitGenerate (executing s)"
  have so: "status_in ?ops = status_in (operations s)"
  proof
    fix j show "status_in ?ops j = status_in (operations s) j"
      by (cases "map_of (operations s) i") (simp_all add: status_in_map_entry, simp_all add: status_in_def)
  qed
  have A: "store_ok ?ops"
    by (rule store_ok_map_entry[OF p(1)]) (simp add: record_ok_def)
  have B: "queue_ok ?ops (queue s)" using p(2) by (simp add: queue_ok_def so)
  have C: "current_ok ?ops (currentOperation s)" using p(3) by (simp add: current_ok_def so)
  have D: "worker_ok (executeOperation_progress i now s)"
    using p(4) by (simp add: worker_ok_def executeOperation_progress_def)
  have E: "pending_ok (queue s) (currentOperation s) (timers s) ?exs"
    using p(5) ex unfolding pending_ok_def by (auto simp: AList.update_conv')
  show ?thesis unfolding consistent_def using A B C D E by (simp add: executeOperation_progress_def)
qed

lemma executeOperation_progress_known:
  assumes "map_of (executing s) i = Some AwaitService"
  shows "known (executeOperation_progress i now s) = known s"
proof -
  have "i \<in> fst ` set (executing s)" using assms by (meson domI domIff map_of_eq_None_iff)
  then show ?thesis
    by (auto simp add: known_def executeOperation_progress_def AList.dom_map_entry AList.dom_update)
qed

lemma processQueue_after_exec_wf:
  assumes st: "store_ok (operations s)" and qo: "queue_ok (operations s) (queue s)"
    and co: "current_ok (operations s) (Some i)" and wo: "worker_ok s"
    and w: "worker s = AwaitExec i"
    and po: "pending_ok (queue s) None (timers s) (executing s)"
  shows "consistent (processQueue_after_exec i outcome now s)"
proof -
  define g :: "operation \<Rightarrow> operation" where "g = (case outcome of
      Inr res \<Rightarrow> (\<lambda>op. op\<lparr>status := COMPLETED, result := Some res, updatedAt := now\<rparr>)
    | Inl msg \<Rightarrow> (\<lambda>op. op\<lparr>status := FAILED, error := Some msg, updatedAt := now\<rparr>))"
  define l where "l = (case outcome of Inr res \<Rightarrow> LogCompleted i | Inl msg \<Rightarrow> LogFailed i msg)"
  let ?ops = "AList.map_entry i g (operations s)"
  let ?s1 = "s\<lparr>operations := ?ops, console := console s @ [l], currentOperation := None\<rparr>"
  have e: "processQueue_after_exec i outcome now s = processQueue_from False now ?s1"
    by (cases outcome) (simp_all add: processQueue_after_exec_def g_def l_def)
  have sti: "status_in (operations s) i = Some PROCESSING"
    using co[unfolded current_ok_def, rule_format, of i] by simp
  then obtain op0 where op0: "map_of (operations s) i = Some op0" "status op0 = PROCESSING"
    by (auto simp: status_in_def)
  have gt: "status (g op) = COMPLETED \<or> status (g op) = FAILED" for op
    by (cases outcome) (simp_all add: g_def)
  have so: "status_in ?ops j = (if j = i then Some (status (g op0)) else status_in (operations s) j)" for j
    by (simp add: status_in_map_entry op0)
  have A: "store_ok ?ops"
  proof (rule store_ok_map_entry[OF st])
    fix op assume "map_of (operations s) i = Some op" "record_ok i op"
    with op0 show "record_ok i (g op)" by (cases outcome) (auto simp: record_ok_def g_def)
  qed
  have iq: "i \<notin> set (queue s)" using qo sti unfolding queue_ok_def by simp
  have ng: "status (g op0) \<noteq> QUEUED" "status (g op0) \<noteq> PROCESSING" using gt[of op0] by auto
  have B: "queue_ok ?ops (queue s)"
    unfolding queue_ok_def
  proof (intro conjI allI)
    show "distinct (queue s)" using qo unfolding queue_ok_def by blast
    fix j
    have old: "j \<in> set (queue s) \<longleftrightarrow> status_in (operations s) j = Some QUEUED"
      using qo unfolding queue_ok_def by blast
    show "j \<in> set (queue s) \<longleftrightarrow> status_in ?ops j = Some QUEUED"
    proof (cases "j = i")
      case True
      then show ?thesis using iq ng(1) by (simp add: so)
    next
      case False
      then show ?thesis using old by (simp add: so)
    qed
  qed
  have nP: "status_in (operations s) j = Some PROCESSING \<Longrightarrow> j = i" for j
    using co[unfolded current_ok_def, rule_format, of j] by simp
  have C: "current_ok ?ops None"
    using nP ng by (auto simp: current_ok_def so)
  have ip: "isProcessing s" using worker_ok_current(2)[OF wo] w by simp
  have si: "serviceInitializing s \<longrightarrow> \<not> serviceReady s" using worker_ok_current(3)[OF wo] by blast
  have "loop_pre ?s1" unfolding loop_pre_def using A B C po ip si by simp
  from processQueue_from_wf[OF this, of False now] show ?thesis by (subst e) simp
qed

lemma processQueue_after_exec_known:
  assumes "queue_ok (operations s) (queue s)" "status_in (operations s) i = Some PROCESSING"
  shows "known (processQueue_after_exec i outcome now s) \<subseteq> known s"
proof -
  define g :: "operation \<Rightarrow> operation" where "g = (case outcome of
      Inr res \<Rightarrow> (\<lambda>op. op\<lparr>status := COMPLETED, result := Some res, updatedAt := now\<rparr>)
    | Inl msg \<Rightarrow> (\<lambda>op. op\<lparr>status := FAILED, error := Some msg, updatedAt := now\<rparr>))"
  define l where "l = (case outcome of Inr res \<Rightarrow> LogCompleted i | Inl msg \<Rightarrow> LogFailed i msg)"
  let ?ops = "AList.map_entry i g (operations s)"
  let ?s1 = "s\<lparr>operations := ?ops, console := console s @ [l], currentOperation := None\<rparr>"
  have e: "processQueue_after_exec i outcome now s = processQueue_from False now ?s1"
    by (cases outcome) (simp_all add: processQueue_after_exec_def g_def l_def)
  obtain op0 where op0: "map_of (operations s) i = Some op0" "status op0 = PROCESSING"
    using assms(2) by (auto simp: status_in_def)
  have gt: "status (g op) = COMPLETED \<or> status (g op) = FAILED" for op
    by (cases outcome) (simp_all add: g_def)
  have so: "status_in ?ops j = (if j = i then Some (status (g op0)) else status_in (operations s) j)" for j
    by (simp add: status_in_map_entry op0)
  have iq: "i \<notin> set (queue s)" using assms unfolding queue_ok_def by simp
  have ng: "status (g op0) \<noteq> QUEUED" using gt[of op0] by auto
  have B: "queue_ok ?ops (queue s)"
    unfolding queue_ok_def
  proof (intro conjI allI)
    show "distinct (queue s)" using assms(1) unfolding queue_ok_def by blast
    fix j
    have old: "j \<in> set (queue s) \<longleftrightarrow> status_in (operations s) j = Some QUEUED"
      using assms(1) unfolding queue_ok_def by blast
    show "j \<in> set (queue s) \<longleftrightarrow> status_in ?ops j = Some QUEUED"
    proof (cases "j = i")
      case True
      then show ?thesis using iq ng(1) by (simp add: so)
    next
      case False
      then show ?thesis using old by (simp add: so)
    qed
  qed
  then have B': "queue_ok (operations ?s1) (queue ?s1)" by simp
  have k: "known ?s1 = known s" by (simp add: known_def AList.dom_map_entry)
  from processQueue_from_known[OF B', of False now] k show ?thesis by (subst e) simp
qed

lemma race_settled_wf:
  assumes consistent: "consistent s"
    and tm1: "\<And>j. map_of (timers s) j = None \<Longrightarrow> map_of tms j = None"
    and tm2: "\<And>j. j \<noteq> i \<Longrightarrow> map_of tms j = map_of (timers s) j"
    and ex1: "\<And>j. map_of (executing s) j = None \<Longrightarrow> map_of exs j = None"
    and ex2: "\<And>j. j \<noteq> i \<Longrightarrow> map_of exs j = map_of (executing s) j"
  shows "consistent (race_settled i outcome now (s\<lparr>timers := tms, executing := exs\<rparr>))"
proof -
  note p = wf_parts[OF consistent]
  let ?s0 = "s\<lparr>timers := tms, executing := exs\<rparr>"
  have wo: "worker_ok ?s0" using p(4) by (simp add: worker_ok_def)
  have po1: "pending_ok (queue s) None tms exs"
    using p(5) tm1 ex1 unfolding pending_ok_def by simp
  show ?thesis
  proof (cases "worker s = AwaitExec i")
    case True
    then have cur: "currentOperation s = Some i" using worker_ok_current(1)[OF p(4)] by simp
    have "consistent (processQueue_after_exec i outcome now ?s0)"
      by (rule processQueue_after_exec_wf) (use p cur wo True po1 in simp_all)
    then show ?thesis using True by (simp add: race_settled_def)
  next
    case False
    then have cur: "currentOperation s \<noteq> Some i" using worker_ok_current(1)[OF p(4)] by simp
    have "pending_ok (queue s) (currentOperation s) tms exs"
      using p(5) tm1 ex1 tm2 ex2 cur unfolding pending_ok_def by auto
    then have "consistent ?s0" unfolding consistent_def using p wo by simp
    then show ?thesis using False by (simp add: race_settled_def)
  qed
qed

lemma race_settled_known:
  assumes consistent: "consistent s"
    and tm: "fst ` set tms \<subseteq> fst ` set (timers s)"
    and ex: "fst ` set exs \<subseteq> fst ` set (executing s)"
  shows "known (race_settled i outcome now (s\<lparr>timers := tms, executing := exs\<rparr>)) \<subseteq> known s"
proof -
  note p = wf_parts[OF consistent]
  let ?s0 = "s\<lparr>timers := tms, executing := exs\<rparr>"
  have k: "known ?s0 \<subseteq> known s" using tm ex by (auto simp: known_def)
  show ?thesis
  proof (cases "worker s = AwaitExec i")
    case True
    then have cur: "currentOperation s = Some i" using worker_ok_current(1)[OF p(4)] by simp
    have sti: "status_in (operations s) i = Some PROCESSING"
      using p(3)[unfolded current_ok_def, rule_format, of i] cur by simp
    have "known (processQueue_after_exec i outcome now ?s0) \<subseteq> known ?s0"
      by (rule processQueue_after_exec_known) (use p sti in simp_all)
    then show ?thesis using True k by (simp add: race_settled_def)
  next
    case False
    then show ?thesis using k by (simp add: race_settled_def)
  qed
qed

lemma expired_keys:
  assumes "distinct (map fst ops)"
  shows "j \<in> set (map fst (filter (\<lambda>(i, op). expired now op) ops)) \<longleftrightarrow>
         (\<exists>op. map_of ops j = Some op \<and> expired now op)"
  using assms by (auto simp: image_iff)

lemma cleanupOldOperations_lookup:
  assumes "distinct (map fst (operations s))"
  shows "map_of (operations (cleanupOldOperations now s)) j =
     (case map_of (operations s) j of
        None \<Rightarrow> None
      | Some op \<Rightarrow> if expired now op then None else Some op)"
  using expired_keys[OF assms, of j now]
  by (simp add: cleanupOldOperations_def Let_def map_of_fold_delete split: option.splits del: set_map)

lemma cleanupOldOperations_wf:
  assumes consistent: "consistent s"
  shows "consistent (cleanupOldOperations now s)"
proof -
  note p = wf_parts[OF consistent]
  let ?s1 = "cleanupOldOperations now s"
  have d: "distinct (map fst (operations s))" using p(1) by (simp add: store_ok_def)
  note lk = cleanupOldOperations_lookup[OF d, of now]
  have so: "status_in (operations ?s1) j =
      (if status_in (operations s) j = Some QUEUED \<or> status_in (operations s) j = Some PROCESSING
       then status_in (operations s) j else status_in (operations ?s1) j)" for j
    by (auto simp add: status_in_def lk expired_def split: option.splits)
  have sub: "status_in (operations ?s1) j = Some st \<Longrightarrow> status_in (operations s) j = Some st" for j st
    by (auto simp add: status_in_def lk split: option.splits if_splits)
  have A: "store_ok (operations ?s1)"
    unfolding store_ok_def
  proof (intro conjI allI impI)
    show "distinct (map fst (operations ?s1))"
      using d by (simp add: cleanupOldOperations_def Let_def distinct_fold_delete)
    show "map_of (operations ?s1) [] = None" using p(1) by (simp add: lk store_ok_def)
    fix i op assume "map_of (operations ?s1) i = Some op"
    then have "map_of (operations s) i = Some op" by (simp add: lk split: option.splits if_splits)
    then show "record_ok i op" using p(1) unfolding store_ok_def by blast
  qed
  have B: "queue_ok (operations ?s1) (queue s)"
    unfolding queue_ok_def
  proof (intro conjI allI)
    show "distinct (queue s)" using p(2) unfolding queue_ok_def by blast
    fix j
    have old: "j \<in> set (queue s) \<longleftrightarrow> status_in (operations s) j = Some QUEUED"
      using p(2) unfolding queue_ok_def by blast
    show "j \<in> set (queue s) \<longleftrightarrow> status_in (operations ?s1) j = Some QUEUED"
      using old so[of j] sub[of j QUEUED] by auto
  qed
  have C: "current_ok (operations ?s1) (currentOperation s)"
    unfolding current_ok_def
  proof
    fix j
    have old: "currentOperation s = Some j \<longleftrightarrow> status_in (operations s) j = Some PROCESSING"
      using p(3)[unfolded current_ok_def, rule_format, of j] .
    show "currentOperation s = Some j \<longleftrightarrow> status_in (operations ?s1) j = Some PROCESSING"
      using old so[of j] sub[of j PROCESSING] by auto
  qed
  have q: "queue ?s1 = queue s" "currentOperation ?s1 = currentOperation s"
    "timers ?s1 = timers s" "executing ?s1 = executing s"
    by (simp_all add: cleanupOldOperations_def Let_def)
  have D: "worker_ok ?s1" using p(4) by (simp add: worker_ok_def cleanupOldOperations_def Let_def)
  show ?thesis unfolding consistent_def q using A B C D p(5) by blast
qed

lemma cleanupOldOperations_known: "known (cleanupOldOperations now s) \<subseteq> known s"
proof -
  have "fst ` set (fold AList.delete ks ops) \<subseteq> fst ` set ops" for ks and ops :: store
  proof (induction ks arbitrary: ops)
    case (Cons k ks)
    show ?case using Cons[of "AList.delete k ops"] AList.dom_delete_subset[of k ops] by auto
  qed simp
  then have a: "fst ` set (operations (cleanupOldOperations now s)) \<subseteq> fst ` set (operations s)"
    by (simp add: cleanupOldOperations_def Let_def)
  have b: "timers (cleanupOldOperations now s) = timers s"
    "executing (cleanupOldOperations now s) = executing s"
    by (simp_all add: cleanupOldOperations_def Let_def)
  show ?thesis unfolding known_def b
    by (rule Un_mono[OF Un_mono[OF a subset_refl] subset_refl])
qed

lemma step_wf:
  assumes consistent: "consistent s" and fresh: "\<forall>u\<in>set (uuid_of e). u \<noteq> [] \<and> u \<notin> known s"
  shows "consistent (step e s)"
proof (cases e)
  case (Enqueue u a b c now)
  then show ?thesis using enqueue_wf[OF consistent, of u a b c now] fresh by simp
next
  case (Cancel i now)
  then show ?thesis using cancel_wf[OF consistent] by simp
next
  case InitCall
  then show ?thesis using initializeService_call_wf[OF consistent] by simp
next
  case (InitSettled outcome now)
  then show ?thesis using initializeService_settled_wf[OF consistent] consistent by simp
next
  case (PollWake now)
  then show ?thesis using initializeService_poll_wf[OF consistent] consistent by simp
next
  case (ServiceObtained i now)
  then show ?thesis using executeOperation_progress_wf[OF consistent] consistent by simp
next
  case (ExecSettled i outcome now)
  have "consistent (race_settled i outcome now (s\<lparr>timers := timers s, executing := AList.delete i (executing s)\<rparr>))"
    by (rule race_settled_wf[OF consistent]) (simp_all add: AList.delete_conv')
  then show ?thesis using ExecSettled consistent by (simp split: option.splits)
next
  case (TimerFired i now)
  have "consistent (race_settled i (Inl ''Operation timed out'') now
          (s\<lparr>timers := AList.delete i (timers s), executing := executing s\<rparr>))"
    by (rule race_settled_wf[OF consistent]) (simp_all add: AList.delete_conv')
  then show ?thesis using TimerFired consistent by (simp split: option.splits)
next
  case (CleanupTick now)
  then show ?thesis using cleanupOldOperations_wf[OF consistent] by simp
qed

lemma step_known:
  assumes consistent: "consistent s" and fresh: "\<forall>u\<in>set (uuid_of e). u \<notin> known s"
  shows "known (step e s) \<subseteq> known s \<union> set (uuid_of e)"
proof (cases e)
  case (Enqueue u a b c now)
  then show ?thesis using enqueue_known[OF consistent, of u a b c now] fresh by simp
next
  case (Cancel i now)
  then show ?thesis by (simp add: cancel_known)
next
  case InitCall
  then show ?thesis by (simp add: initializeService_call_known)
next
  case (InitSettled outcome now)
  then show ?thesis using initializeService_settled_known[OF wf_parts(2)[OF consistent]] by simp
next
  case (PollWake now)
  then show ?thesis using initializeService_poll_known[OF wf_parts(2)[OF consistent]] by simp
next
  case (ServiceObtained i now)
  then show ?thesis using executeOperation_progress_known[of s i now] by simp
next
  case (ExecSettled i outcome now)
  have "known (race_settled i outcome now (s\<lparr>timers := timers s, executing := AList.delete i (executing s)\<rparr>)) \<subseteq> known s"
    by (rule race_settled_known[OF consistent]) (simp_all add: AList.dom_delete_subset)
  then show ?thesis using ExecSettled by (simp split: option.splits)
next
  case (TimerFired i now)
  have "known (race_settled i (Inl ''Operation timed out'') now
          (s\<lparr>timers := AList.delete i (timers s), executing := executing s\<rparr>)) \<subseteq> known s"
    by (rule race_settled_known[OF consistent]) (simp_all add: AList.dom_delete_subset)
  then show ?thesis using TimerFired by (simp split: option.splits)
next
  case (CleanupTick now)
  then show ?thesis using cleanupOldOperations_known[of now s] by simp
qed

lemma run_Cons: "run (e # evs) s = run evs (step e s)"
  by (simp add: run_def)

lemma run_append: "run (evs1 @ evs2) s = run evs2 (run evs1 s)"
  by (simp add: run_def)

lemma uuids_Cons: "uuids (e # evs) = uuid_of e @ uuids evs"
  by (simp add: uuids_def)

lemma run_wf_known:
  assumes "consistent s" "distinct (uuids evs)" "[] \<notin> set (uuids evs)" "set (uuids evs) \<inter> known s = {}"
  shows "consistent (run evs s) \<and> known (run evs s) \<subseteq> known s \<union> set (uuids evs)"
  using assms
proof (induction evs arbitrary: s)
  case Nil
  then show ?case by (simp add: run_def)
next
  case (Cons e evs)
  have f: "\<forall>u\<in>set (uuid_of e). u \<noteq> [] \<and> u \<notin> known s"
    using Cons.prems(3,4) by (auto simp: uuids_Cons)
  have w: "consistent (step e s)" by (rule step_wf[OF Cons.prems(1) f])
  have k: "known (step e s) \<subseteq> known s \<union> set (uuid_of e)"
    using step_known[OF Cons.prems(1)] f by blast
  have d: "distinct (uuids evs)" "[] \<notin> set (uuids evs)"
    "set (uuids evs) \<inter> set (uuid_of e) = {}" "set (uuids evs) \<inter> known s = {}"
    using Cons.prems(2,3,4) by (auto simp: uuids_Cons)
  have "set (uuids evs) \<inter> known (step e s) = {}" using k d(3,4) by blast
  from Cons.IH[OF w d(1) d(2) this]
  have "consistent (run evs (step e s))"
    "known (run evs (step e s)) \<subseteq> known (step e s) \<union> set (uuids evs)" by blast+
  then show ?case using k by (auto simp: run_Cons uuids_Cons)
qed

lemma wf_new: "consistent new_VeedQueue"
  by (simp add: consistent_def new_VeedQueue_def store_ok_def queue_ok_def current_ok_def
        worker_ok_def pending_ok_def status_in_def)

lemma known_new: "known new_VeedQueue = {}"
  by (simp add: known_def new_VeedQueue_def)

lemma reachable_wf:
  assumes "fresh_uuids evs"
  shows "consistent (run evs new_VeedQueue)" "known (run evs new_VeedQueue) \<subseteq> set (uuids evs)"
  using run_wf_known[OF wf_new, of evs] assms by (simp_all add: fresh_uuids_def known_new)

lemma fresh_uuids_append:
  "fresh_uuids (evs1 @ evs2) \<longleftrightarrow>
     fresh_uuids evs1 \<and> fresh_uuids evs2 \<and> set (uuids evs1) \<inter> set (uuids evs2) = {}"
  by (auto simp: fresh_uuids_def uuids_def)

lemma reachable_step:
  assumes "fresh_uuids (evs @ [e])"
  shows "consistent (run evs new_VeedQueue)" "\<forall>u\<in>set (uuid_of e). u \<noteq> [] \<and> u \<notin> known (run evs new_VeedQueue)"
proof -
  from assms have f: "fresh_uuids evs" and g: "fresh_uuids [e]"
    and h: "set (uuids evs) \<inter> set (uuids [e]) = {}"
    by (simp_all add: fresh_uuids_append)
  show "consistent (run evs new_VeedQueue)" by (rule reachable_wf(1)[OF f])
  show "\<forall>u\<in>set (uuid_of e). u \<noteq> [] \<and> u \<notin> known (run evs new_VeedQueue)"
    using reachable_wf(2)[OF f] g h by (auto simp: fresh_uuids_def uuids_def)
qed

lemma run_snoc: "run (evs @ [e]) s = step e (run evs s)"
  by (simp add: run_def)

lemma reachable_induct [consumes 1, case_names init step]:
  assumes f: "fresh_uuids evs"
    and init: "P [] new_VeedQueue"
    and step: "\<And>evs e. fresh_uuids (evs @ [e]) \<Longrightarrow> consistent (run evs new_VeedQueue) \<Longrightarrow>
        \<forall>u\<in>set (uuid_of e). u \<noteq> [] \<and> u \<notin> known (run evs new_VeedQueue) \<Longrightarrow>
        P evs (run evs new_VeedQueue) \<Longrightarrow> P (evs @ [e]) (step e (run evs new_VeedQueue))"
  shows "P evs (run evs new_VeedQueue)"
  using f
proof (induction evs rule: rev_induct)
  case Nil
  then show ?case using init by (simp add: run_def)
next
  case (snoc e evs)
  from snoc.prems have "fresh_uuids evs" by (simp add: fresh_uuids_append)
  then have "P evs (run evs new_VeedQueue)" by (rule snoc.IH)
  from step[OF snoc.prems reachable_step[OF snoc.prems] this]
  show ?case by (simp add: run_snoc)
qed

lemma uuids_snoc: "uuids (evs @ [e]) = uuids evs @ uuid_of e"
  by (simp add: uuids_def)

lemma entry_step_refl: "entry_step x x"
  by (cases x) (simp_all add: record_step_def)

lemma processQueue_from_lookup:
  assumes qo: "queue_ok (operations s) (queue s)"
  shows "map_of (operations (processQueue_from b now s)) j = map_of (operations s) j \<or>
         (\<exists>op. map_of (operations s) j = Some op \<and> status op = QUEUED \<and>
               map_of (operations (processQueue_from b now s)) j =
                 Some (op\<lparr>status := PROCESSING, updatedAt := now\<rparr>))"
proof (cases "queue s \<noteq> [] \<and> (b \<or> serviceReady s) \<and> j = hd (queue s)")
  case False
  then show ?thesis
    by (auto simp add: processQueue_from_char[OF queue_ok_lookup[OF qo]] start_head_def lookup_map_entry)
next
  case True
  then have "status_in (operations s) j = Some QUEUED"
    using qo unfolding queue_ok_def by (cases "queue s") auto
  then obtain op where op: "map_of (operations s) j = Some op" "status op = QUEUED"
    by (auto simp: status_in_def)
  have "map_of (operations (processQueue_from b now s)) j =
                 Some (op\<lparr>status := PROCESSING, updatedAt := now\<rparr>)"
    using True op
    by (auto simp add: processQueue_from_char[OF queue_ok_lookup[OF qo]] start_head_def lookup_map_entry)
  with op show ?thesis by blast
qed

lemma processQueue_from_entry_step:
  assumes qo: "queue_ok (operations s) (queue s)"
  shows "entry_step (map_of (operations s) j) (map_of (operations (processQueue_from b now s)) j)"
  using processQueue_from_lookup[OF qo, of b now j]
  by (auto simp: entry_step_refl record_step_def transition_def)

lemma entry_step_start:
  assumes qo: "queue_ok (operations s1) (queue s1)"
    and first: "entry_step x (map_of (operations s1) j)"
    and idle: "x = map_of (operations s1) j \<or>
               (\<forall>op. map_of (operations s1) j = Some op \<longrightarrow> status op \<noteq> QUEUED)"
  shows "entry_step x (map_of (operations (processQueue_from b now s1)) j)"
proof (cases "x = map_of (operations s1) j")
  case True
  then show ?thesis using processQueue_from_entry_step[OF qo, of j b now] by simp
next
  case False
  then have "\<forall>op. map_of (operations s1) j = Some op \<longrightarrow> status op \<noteq> QUEUED"
    using idle by blast
  then have "map_of (operations (processQueue_from b now s1)) j = map_of (operations s1) j"
    using processQueue_from_lookup[OF qo, of b now j] by auto
  then show ?thesis using first by simp
qed

lemma enqueue_records:
  assumes c: "consistent s" and u: "u \<notin> known s"
  shows "if j = u
         then (case map_of (operations (snd (enqueue u a b c' now s))) j of
                 None \<Rightarrow> True | Some op' \<Rightarrow> status op' = QUEUED \<or> status op' = PROCESSING)
         else entry_step (map_of (operations s) j)
                (map_of (operations (snd (enqueue u a b c' now s))) j)"
proof (cases "maxQueueSize \<le> length (queue s) + (if truthy (currentOperation s) then 1 else 0)")
  case True
  have "map_of (operations s) u = None" using u by (simp add: known_def map_of_eq_None_iff)
  then show ?thesis using True by (simp add: enqueue_def entry_step_refl)
next
  case False
  let ?op = "\<lparr>op_id = u, status = QUEUED, imageUrl = a, prompt = b,
               options = c', createdAt = now, updatedAt = now,
               position = length (queue s) + 1, result = None, error = None,
               progress = None\<rparr>"
  let ?s1 = "s\<lparr>operations := AList.update u ?op (operations s),
                   queue := queue s @ [u],
                   console := console s @ [LogEnqueued u (position ?op)]\<rparr>"
  let ?s2 = "?s1\<lparr>isProcessing := True\<rparr>"
  have e: "snd (enqueue u a b c' now s) = processQueue now ?s1"
    using False by (simp add: enqueue_def Let_def)
  from u have su: "status_in (operations s) u = None"
    by (simp add: status_in_def map_of_eq_None_iff known_def)
  from c have qo: "queue_ok (operations s) (queue s)" by (simp add: consistent_def)
  have B: "queue_ok (operations ?s1) (queue ?s1)"
    using qo su by (auto simp: queue_ok_def status_in_update)
  then have B2: "queue_ok (operations ?s2) (queue ?s2)" by simp
  have l1: "map_of (operations ?s1) j = (if j = u then Some ?op else map_of (operations s) j)"
    by (simp add: AList.update_conv')
  have l2: "map_of (operations ?s2) j = (if j = u then Some ?op else map_of (operations s) j)"
    by (simp add: AList.update_conv')
  have goal1: "if j = u
         then (case map_of (operations ?s1) j of
                 None \<Rightarrow> True | Some op' \<Rightarrow> status op' = QUEUED \<or> status op' = PROCESSING)
         else entry_step (map_of (operations s) j) (map_of (operations ?s1) j)"
    unfolding l1 by (simp add: entry_step_refl)
  have goal2: "if j = u
         then (case map_of (operations (processQueue_from False now ?s2)) j of
                 None \<Rightarrow> True | Some op' \<Rightarrow> status op' = QUEUED \<or> status op' = PROCESSING)
         else entry_step (map_of (operations s) j) (map_of (operations (processQueue_from False now ?s2)) j)"
  proof (cases "j = u")
    case True
    then show ?thesis using processQueue_from_lookup[OF B2, of False now j] unfolding l2 by auto
  next
    case False
    then show ?thesis using processQueue_from_entry_step[OF B2, of j False now] unfolding l2 by simp
  qed
  have "processQueue now ?s1 = (if isProcessing s then ?s1 else processQueue_from False now ?s2)"
    by (simp add: processQueue_def)
  then show ?thesis unfolding e using goal1 goal2 by (cases "isProcessing s") (simp_all only: if_True if_False)
qed

lemma processQueue_after_init_records:
  assumes qo: "queue_ok (operations s) (queue s)"
  shows "entry_step (map_of (operations s) j)
           (map_of (operations (processQueue_after_init r now s)) j)"
proof (cases r)
  case True
  then show ?thesis using processQueue_from_entry_step[OF qo, of j True now]
    by (simp add: processQueue_after_init_def)
next
  case False
  have d: "distinct (queue s)" using qo by (simp add: queue_ok_def)
  show ?thesis
  proof (cases "j \<in> set (queue s)")
    case True
    then have "status_in (operations s) j = Some QUEUED" using qo by (simp add: queue_ok_def)
    then obtain op where "map_of (operations s) j = Some op" "status op = QUEUED"
      by (auto simp: status_in_def)
    then show ?thesis using True \<open>\<not> r\<close>
      by (simp add: processQueue_after_init_def map_of_fold_map_entry_distinct[OF d]
            record_step_def transition_def)
  next
    case False
    then show ?thesis using \<open>\<not> r\<close>
      by (simp add: processQueue_after_init_def map_of_fold_map_entry_distinct[OF d]
            entry_step_refl)
  qed
qed

lemma race_settled_records:
  assumes qo: "queue_ok (operations s) (queue s)"
    and cur: "worker s = AwaitExec i \<longrightarrow> status_in (operations s) i = Some PROCESSING"
  shows "entry_step (map_of (operations s) j)
           (map_of (operations (race_settled i outcome now s)) j)"
proof (cases "worker s = AwaitExec i")
  case False
  then show ?thesis by (simp add: race_settled_def entry_step_refl)
next
  case True
  define g :: "operation \<Rightarrow> operation" where "g = (case outcome of
      Inr res \<Rightarrow> (\<lambda>op. op\<lparr>status := COMPLETED, result := Some res, updatedAt := now\<rparr>)
    | Inl msg \<Rightarrow> (\<lambda>op. op\<lparr>status := FAILED, error := Some msg, updatedAt := now\<rparr>))"
  define l where "l = (case outcome of Inr res \<Rightarrow> LogCompleted i | Inl msg \<Rightarrow> LogFailed i msg)"
  let ?ops = "AList.map_entry i g (operations s)"
  let ?s1 = "s\<lparr>operations := ?ops, console := console s @ [l], currentOperation := None\<rparr>"
  have e: "processQueue_after_exec i outcome now s = processQueue_from False now ?s1"
    by (cases outcome) (simp_all add: processQueue_after_exec_def g_def l_def)
  obtain op0 where op0: "map_of (operations s) i = Some op0" "status op0 = PROCESSING"
    using cur True by (auto simp: status_in_def)
  have gt: "status (g op0) = COMPLETED \<or> status (g op0) = FAILED"
    by (cases outcome) (simp_all add: g_def)
  then have ng: "status (g op0) \<noteq> QUEUED" by auto
  have iq: "i \<notin> set (queue s)" using qo op0 unfolding queue_ok_def by (simp add: status_in_def)
  have so: "status_in ?ops k = (if k = i then Some (status (g op0)) else status_in (operations s) k)" for k
    by (simp add: status_in_map_entry op0)
  have B: "queue_ok ?ops (queue s)"
    unfolding queue_ok_def
  proof (intro conjI allI)
    show "distinct (queue s)" using qo unfolding queue_ok_def by blast
    fix k
    have old: "k \<in> set (queue s) \<longleftrightarrow> status_in (operations s) k = Some QUEUED"
      using qo unfolding queue_ok_def by blast
    show "k \<in> set (queue s) \<longleftrightarrow> status_in ?ops k = Some QUEUED"
      using old iq ng by (cases "k = i") (simp_all add: so)
  qed
  then have B1: "queue_ok (operations ?s1) (queue ?s1)" by simp
  have l1: "map_of (operations ?s1) j = (if j = i then Some (g op0) else map_of (operations s) j)"
    by (simp add: lookup_map_entry op0)
  have "entry_step (map_of (operations s) j) (map_of (operations (processQueue_from False now ?s1)) j)"
  proof (rule entry_step_start[OF B1])
    show "entry_step (map_of (operations s) j) (map_of (operations ?s1) j)"
      unfolding l1 using op0 gt by (auto simp: entry_step_refl record_step_def transition_def)
    show "map_of (operations s) j = map_of (operations ?s1) j \<or>
          (\<forall>op. map_of (operations ?s1) j = Some op \<longrightarrow> status op \<noteq> QUEUED)"
      unfolding l1 using ng by auto
  qed
  then show ?thesis using True by (simp add: race_settled_def e)
qed

lemma step_records:
  assumes c: "consistent s" and fresh: "\<forall>u\<in>set (uuid_of e). u \<noteq> [] \<and> u \<notin> known s"
  shows "if j \<in> set (uuid_of e)
         then (case map_of (operations (step e s)) j of
                 None \<Rightarrow> True | Some op' \<Rightarrow> status op' = QUEUED \<or> status op' = PROCESSING)
         else entry_step (map_of (operations s) j) (map_of (operations (step e s)) j)"
proof -
  note qo = wf_parts(2)[OF c]
  have cur: "worker s = AwaitExec i \<longrightarrow> status_in (operations s) i = Some PROCESSING" for i
    using worker_ok_current(1)[OF wf_parts(4)[OF c], of i]
      wf_parts(3)[OF c, unfolded current_ok_def, rule_format, of i] by simp
  show ?thesis
  proof (cases e)
    case (Enqueue u a b c' now)
    then show ?thesis using enqueue_records[OF c, of u j a b c' now] fresh
      by (simp split: if_splits)
  next
    case (Cancel i now)
    then show ?thesis
      by (auto simp add: cancel_def lookup_map_entry entry_step_refl record_step_def transition_def
            split: option.splits)
  next
    case InitCall
    then show ?thesis by (simp add: initializeService_call_def entry_step_refl)
  next
    case (InitSettled outcome now)
    let ?s2 = "s\<lparr>serviceReady := init_result outcome,
                console := console s @ [init_log outcome], serviceInitializing := False\<rparr>"
    have "entry_step (map_of (operations ?s2) j)
            (map_of (operations (processQueue_after_init (init_result outcome) now ?s2)) j)"
      by (rule processQueue_after_init_records) (use qo in simp)
    then show ?thesis using InitSettled
      by (simp add: initializeService_settled_char entry_step_refl)
  next
    case (PollWake now)
    then show ?thesis using processQueue_after_init_records[OF qo, of j "serviceReady s" now]
      by (simp add: initializeService_poll_def entry_step_refl)
  next
    case (ServiceObtained i now)
    then show ?thesis
      by (cases "map_of (operations s) i")
         (auto simp add: executeOperation_progress_def lookup_map_entry entry_step_refl record_step_def)
  next
    case (ExecSettled i outcome now)
    let ?s0 = "s\<lparr>executing := AList.delete i (executing s)\<rparr>"
    have "entry_step (map_of (operations ?s0) j) (map_of (operations (race_settled i outcome now ?s0)) j)"
      by (rule race_settled_records) (use qo cur in simp_all)
    then show ?thesis using ExecSettled by (simp add: entry_step_refl split: option.splits)
  next
    case (TimerFired i now)
    let ?s0 = "s\<lparr>timers := AList.delete i (timers s)\<rparr>"
    have "entry_step (map_of (operations ?s0) j)
            (map_of (operations (race_settled i (Inl ''Operation timed out'') now ?s0)) j)"
      by (rule race_settled_records) (use qo cur in simp_all)
    then show ?thesis using TimerFired by (simp add: entry_step_refl split: option.splits)
  next
    case (CleanupTick now)
    have d: "distinct (map fst (operations s))" using wf_parts(1)[OF c] by (simp add: store_ok_def)
    show ?thesis using CleanupTick
      by (auto simp add: cleanupOldOperations_lookup[OF d] entry_step_refl expired_def
            split: option.splits)
  qed
qed

lemma race_settled_effect:
  assumes qo: "queue_ok (operations s) (queue s)"
    and w: "worker s = AwaitExec i" and op0: "map_of (operations s) i = Some op0"
    and st: "status op0 = PROCESSING" and sr: "serviceReady s"
  shows "race_settled i (Inl msg) now s =
     (if queue s = []
      then s\<lparr>operations := AList.map_entry i
                (\<lambda>op. op\<lparr>status := FAILED, error := Some msg, updatedAt := now\<rparr>) (operations s),
              console := console s @ [LogFailed i msg], currentOperation := None,
              isProcessing := False, worker := Idle\<rparr>
      else start_head now
             (s\<lparr>operations := AList.map_entry i
                (\<lambda>op. op\<lparr>status := FAILED, error := Some msg, updatedAt := now\<rparr>) (operations s),
               console := console s @ [LogFailed i msg], currentOperation := None\<rparr>))"
proof -
  let ?g = "\<lambda>op. op\<lparr>status := FAILED, error := Some msg, updatedAt := now\<rparr>"
  let ?ops = "AList.map_entry i ?g (operations s)"
  let ?s1 = "s\<lparr>operations := ?ops, console := console s @ [LogFailed i msg], currentOperation := None\<rparr>"
  have iq: "i \<notin> set (queue s)" using qo op0 st unfolding queue_ok_def by (simp add: status_in_def)
  have "\<forall>k\<in>set (queue ?s1). map_of (operations ?s1) k \<noteq> None"
    using queue_ok_lookup[OF qo] iq by (auto simp: lookup_map_entry)
  from processQueue_from_char[OF this, of False now]
  show ?thesis using w sr
    by (simp add: race_settled_def processQueue_after_exec_def)
qed

lemma run_failed_stable:
  assumes "consistent s" "distinct (uuids evs)" "[] \<notin> set (uuids evs)"
    "set (uuids evs) \<inter> known s = {}" "i \<notin> set (uuids evs)"
    "case map_of (operations s) i of None \<Rightarrow> True
     | Some op \<Rightarrow> status op = FAILED \<and> error op = Some msg \<and> result op = None"
  shows "case map_of (operations (run evs s)) i of None \<Rightarrow> True
     | Some op \<Rightarrow> status op = FAILED \<and> error op = Some msg \<and> result op = None"
  using assms
proof (induction evs arbitrary: s)
  case Nil
  then show ?case by (simp add: run_def)
next
  case (Cons e evs)
  have f: "\<forall>u\<in>set (uuid_of e). u \<noteq> [] \<and> u \<notin> known s"
    using Cons.prems(3,4) by (auto simp: uuids_Cons)
  have w: "consistent (step e s)" by (rule step_wf[OF Cons.prems(1) f])
  have k: "known (step e s) \<subseteq> known s \<union> set (uuid_of e)"
    using step_known[OF Cons.prems(1)] f by blast
  have d: "distinct (uuids evs)" "[] \<notin> set (uuids evs)"
    "set (uuids evs) \<inter> set (uuid_of e) = {}" "set (uuids evs) \<inter> known s = {}"
    "i \<notin> set (uuids evs)" "i \<notin> set (uuid_of e)"
    using Cons.prems(2,3,4,5) by (auto simp: uuids_Cons)
  have k': "set (uuids evs) \<inter> known (step e s) = {}" using k d(3,4) by blast
  have "entry_step (map_of (operations s) i) (map_of (operations (step e s)) i)"
    using step_records[OF Cons.prems(1) f, of i] d(6) by simp
  then have "case map_of (operations (step e s)) i of None \<Rightarrow> True
     | Some op \<Rightarrow> status op = FAILED \<and> error op = Some msg \<and> result op = None"
    using Cons.prems(6)
    by (cases "map_of (operations s) i"; cases "map_of (operations (step e s)) i")
       (auto simp: record_step_def transition_def)
  from Cons.IH[OF w d(1) d(2) k' d(5) this] show ?case by (simp add: run_Cons)
qed

lemma queue_ok_mem:
  assumes "queue_ok ops q"
  shows "i \<in> set q \<longleftrightarrow> status_in ops i = Some QUEUED"
  using assms unfolding queue_ok_def by blast

lemma race_settled_failed:
  assumes c: "consistent s" and w: "worker s = AwaitExec i"
    and s0: "operations s0 = operations s" "queue s0 = queue s" "worker s0 = worker s"
      "serviceReady s0 = serviceReady s"
  shows "\<exists>op0. map_of (operations s) i = Some op0 \<and> status op0 = PROCESSING \<and>
           map_of (operations (race_settled i (Inl msg) now s0)) i =
             Some (op0\<lparr>status := FAILED, error := Some msg, updatedAt := now\<rparr>)"
    and "queue (race_settled i (Inl msg) now s0) = tl (queue s)"
    and "currentOperation (race_settled i (Inl msg) now s0) =
           (case queue s of [] \<Rightarrow> None | n # rest \<Rightarrow> Some n)"
    and "worker (race_settled i (Inl msg) now s0) =
           (case queue s of [] \<Rightarrow> Idle | n # rest \<Rightarrow> AwaitExec n)"
    and "isProcessing s0 \<Longrightarrow> isProcessing (race_settled i (Inl msg) now s0) = (queue s \<noteq> [])"
    and "\<forall>n rest. queue s = n # rest \<longrightarrow>
           status_in (operations (race_settled i (Inl msg) now s0)) n = Some PROCESSING"
proof -
  note p = wf_parts[OF c]
  have cur: "currentOperation s = Some i" using worker_ok_current(1)[OF p(4)] w by simp
  then have "status_in (operations s) i = Some PROCESSING"
    using p(3)[unfolded current_ok_def, rule_format, of i] by simp
  then obtain op0 where op0: "map_of (operations s) i = Some op0" "status op0 = PROCESSING"
    by (auto simp: status_in_def)
  have sr: "serviceReady s" using p(4) cur unfolding worker_ok_def by simp
  have iq: "i \<notin> set (queue s)" using p(2) op0 unfolding queue_ok_def by (simp add: status_in_def)
  have qo0: "queue_ok (operations s0) (queue s0)" using p(2) s0 by simp
  note eff = race_settled_effect[OF qo0, of i op0 msg now, unfolded s0, OF w op0 sr]
  show "\<exists>op0. map_of (operations s) i = Some op0 \<and> status op0 = PROCESSING \<and>
           map_of (operations (race_settled i (Inl msg) now s0)) i =
             Some (op0\<lparr>status := FAILED, error := Some msg, updatedAt := now\<rparr>)"
  proof (intro exI conjI)
    show "map_of (operations s) i = Some op0" "status op0 = PROCESSING" using op0 by simp_all
    show "map_of (operations (race_settled i (Inl msg) now s0)) i =
             Some (op0\<lparr>status := FAILED, error := Some msg, updatedAt := now\<rparr>)"
      using iq op0 by (cases "queue s") (simp_all add: eff start_head_def lookup_map_entry s0)
  qed
  show "queue (race_settled i (Inl msg) now s0) = tl (queue s)"
    by (cases "queue s") (simp_all add: eff start_head_def s0)
  show "currentOperation (race_settled i (Inl msg) now s0) =
           (case queue s of [] \<Rightarrow> None | n # rest \<Rightarrow> Some n)"
    by (cases "queue s") (simp_all add: eff start_head_def s0)
  show "worker (race_settled i (Inl msg) now s0) =
           (case queue s of [] \<Rightarrow> Idle | n # rest \<Rightarrow> AwaitExec n)"
    by (cases "queue s") (simp_all add: eff start_head_def s0)
  show "isProcessing s0 \<Longrightarrow> isProcessing (race_settled i (Inl msg) now s0) = (queue s \<noteq> [])"
    by (cases "queue s") (simp_all add: eff start_head_def s0)
  show "\<forall>n rest. queue s = n # rest \<longrightarrow>
           status_in (operations (race_settled i (Inl msg) now s0)) n = Some PROCESSING"
  proof (intro allI impI)
    fix n rest assume q: "queue s = n # rest"
    then have "status_in (operations s) n = Some QUEUED" using queue_ok_mem[OF p(2), of n] by simp
    then obtain opn where "map_of (operations s) n = Some opn" by (auto simp: status_in_def)
    moreover have "n \<noteq> i" using iq q by auto
    ultimately show "status_in (operations (race_settled i (Inl msg) now s0)) n = Some PROCESSING"
      using q by (simp add: eff start_head_def s0 status_in_def lookup_map_entry)
  qed
qed

lemma race_settled_failed_and_continued:
  assumes c: "consistent s" and w: "worker s = AwaitExec i"
    and s0: "operations s0 = operations s" "queue s0 = queue s" "worker s0 = worker s"
      "serviceReady s0 = serviceReady s" "isProcessing s0 = isProcessing s"
    and c': "consistent (race_settled i (Inl msg) now s0)"
  shows "failed_and_continued i msg s (race_settled i (Inl msg) now s0)"
proof -
  let ?s' = "race_settled i (Inl msg) now s0"
  note p = wf_parts[OF c]
  note r = race_settled_failed[OF c w s0(1-4), of msg now]
  from r(1) obtain op0 where op0: "map_of (operations s) i = Some op0" "status op0 = PROCESSING"
    "map_of (operations ?s') i = Some (op0\<lparr>status := FAILED, error := Some msg, updatedAt := now\<rparr>)"
    by blast
  have "record_ok i op0" using p(1) op0(1) unfolding store_ok_def by blast
  then have r0: "result op0 = None" using op0(2) by (auto simp: record_ok_def)
  have ip: "isProcessing s0" using worker_ok_current(2)[OF p(4)] w s0(5) by simp
  have A: "case map_of (operations ?s') i of
        None \<Rightarrow> False
      | Some op \<Rightarrow> status op = FAILED \<and> error op = Some msg \<and> result op = None"
    using op0(3) r0 by simp
  have tm: "map_of (timers ?s') n = Some operationTimeout" if "currentOperation ?s' = Some n" for n
    using wf_parts(5)[OF c'] that unfolding pending_ok_def by blast
  show ?thesis
  proof (cases "queue s")
    case Nil
    then show ?thesis using A r(2,3,4) r(5)[OF ip] by (simp add: failed_and_continued_def)
  next
    case (Cons n rest)
    then show ?thesis using A r(2,3,4,6) r(5)[OF ip] tm[of n] by (simp add: failed_and_continued_def)
  qed
qed

lemma processQueue_after_init_failed:
  assumes qo: "queue_ok (operations s) (queue s)" and cur: "currentOperation s = None"
    and sr: "\<not> serviceReady s"
  shows "all_failed_unavailable now s (processQueue_after_init False now s)"
proof -
  have d: "distinct (queue s)" using qo by (simp add: queue_ok_def)
  have ex: "\<exists>op. map_of (operations s) i = Some op \<and> status op = QUEUED" if "i \<in> set (queue s)" for i
    using queue_ok_mem[OF qo, of i] that by (auto simp: status_in_def)
  have "\<exists>op. map_of (operations s) i = Some op \<and> status op = QUEUED \<and>
             map_of (operations (processQueue_after_init False now s)) i =
               Some (op\<lparr>status := FAILED, error := Some ''Veed service not available'',
                        updatedAt := now\<rparr>)" if "i \<in> set (queue s)" for i
  proof -
    from ex[OF that] obtain op where op: "map_of (operations s) i = Some op" "status op = QUEUED"
      by blast
    then have "map_of (operations (processQueue_after_init False now s)) i =
               Some (op\<lparr>status := FAILED, error := Some ''Veed service not available'',
                        updatedAt := now\<rparr>)"
      using that by (simp add: processQueue_after_init_def map_of_fold_map_entry_distinct[OF d])
    with op show ?thesis by blast
  qed
  moreover have "map_of (operations (processQueue_after_init False now s)) i = map_of (operations s) i"
    if "i \<notin> set (queue s)" for i
    using that by (simp add: processQueue_after_init_def map_of_fold_map_entry_distinct[OF d])
  ultimately show ?thesis using cur sr
    by (simp add: all_failed_unavailable_def) (simp add: processQueue_after_init_def)
qed

lemma length_filter_disj:
  "(\<And>x. x \<in> set xs \<Longrightarrow> \<not> (A x \<and> B x)) \<Longrightarrow>
   length (filter (\<lambda>x. A x \<or> B x) xs) = length (filter A xs) + length (filter B xs)"
  by (induction xs) auto

lemma filter_keys_count:
  assumes d: "distinct (map fst ops)"
    and c: "\<And>i. i \<in> A \<longleftrightarrow> (\<exists>op. map_of ops i = Some op \<and> P op)"
  shows "length (filter (\<lambda>(i, op). P op) ops) = card A"
proof -
  let ?xs = "filter (\<lambda>(i, op). P op) ops"
  have dx: "distinct (map fst ?xs)" using d by (rule distinct_map_filter)
  have "set (map fst ?xs) = A"
  proof (intro set_eqI iffI)
    fix i assume "i \<in> set (map fst ?xs)"
    then obtain op where "(i, op) \<in> set ops" "P op" by auto
    then show "i \<in> A" using c[of i] d by auto
  next
    fix i assume "i \<in> A"
    then obtain op where "map_of ops i = Some op" "P op" using c[of i] by blast
    then have "(i, op) \<in> set ?xs" by (auto dest: map_of_SomeD)
    then show "i \<in> set (map fst ?xs)" by (metis fst_conv image_eqI set_map)
  qed
  then show ?thesis using distinct_card[OF dx] by simp
qed

lemma pending_records_count:
  assumes c: "consistent s"
  shows "pending_records s = length (queue s) + (if truthy (currentOperation s) then 1 else 0)"
proof -
  note p = wf_parts[OF c]
  have d: "distinct (map fst (operations s))" using p(1) by (simp add: store_ok_def)
  have "pending_records s =
      length (filter (\<lambda>(i, op). status op = QUEUED) (operations s)) +
      length (filter (\<lambda>(i, op). status op = PROCESSING) (operations s))"
    unfolding pending_records_def
    using length_filter_disj[of "operations s" "\<lambda>(i, op). status op = QUEUED"
        "\<lambda>(i, op). status op = PROCESSING"]
    by (simp add: case_prod_unfold)
  moreover have "length (filter (\<lambda>(i, op). status op = QUEUED) (operations s)) = card (set (queue s))"
    by (rule filter_keys_count[OF d]) (simp add: queue_ok_mem[OF p(2)] status_in_def)
  moreover have "card (set (queue s)) = length (queue s)"
    using p(2) by (simp add: queue_ok_def distinct_card)
  moreover have "length (filter (\<lambda>(i, op). status op = PROCESSING) (operations s))
      = card (set_option (currentOperation s))"
  proof (rule filter_keys_count[OF d])
    fix i
    show "i \<in> set_option (currentOperation s) \<longleftrightarrow>
          (\<exists>op. map_of (operations s) i = Some op \<and> status op = PROCESSING)"
      using p(3)[unfolded current_ok_def, rule_format, of i] by (simp add: status_in_def)
  qed
  moreover have "card (set_option (currentOperation s)) = (if truthy (currentOperation s) then 1 else 0)"
  proof (cases "currentOperation s")
    case None
    then show ?thesis by simp
  next
    case (Some i)
    then have "status_in (operations s) i = Some PROCESSING"
      using p(3)[unfolded current_ok_def, rule_format, of i] by simp
    then have "map_of (operations s) i \<noteq> None" by (auto simp: status_in_def)
    moreover have "map_of (operations s) [] = None" using p(1) by (simp add: store_ok_def)
    ultimately have "i \<noteq> []" by auto
    then show ?thesis using Some by simp
  qed
  ultimately show ?thesis by simp
qed

lemma enqueue_result:
  assumes c: "consistent s" and u: "u \<notin> known s"
  shows "if maxQueueSize \<le> pending_records s
         then enqueue u a b c' now s = (Inl (QueueFull maxQueueSize), s)
         else \<exists>r s'. enqueue u a b c' now s = (Inr r, s') \<and> admitted u a b c' now s r s'"
proof (cases "maxQueueSize \<le> pending_records s")
  case True
  then show ?thesis by (simp add: enqueue_def pending_records_count[OF c])
next
  case False
  note p = wf_parts[OF c]
  let ?op = "\<lparr>op_id = u, status = QUEUED, imageUrl = a, prompt = b,
               options = c', createdAt = now, updatedAt = now,
               position = length (queue s) + 1, result = None, error = None,
               progress = None\<rparr>"
  let ?s1 = "s\<lparr>operations := AList.update u ?op (operations s),
                   queue := queue s @ [u],
                   console := console s @ [LogEnqueued u (position ?op)]\<rparr>"
  let ?s2 = "?s1\<lparr>isProcessing := True\<rparr>"
  define s' where "s' = processQueue now ?s1"
  define op' where "op' = (case map_of (operations s') u of Some op \<Rightarrow> op | None \<Rightarrow> ?op)"
  define r where "r = \<lparr>r_operationId = u, r_status = status op',
                 r_position = position op', r_queueLength = length (queue s')\<rparr>"
  have nf: "\<not> maxQueueSize \<le> length (queue s) + (if truthy (currentOperation s) then 1 else 0)"
    using False unfolding pending_records_count[OF c] .
  have e: "enqueue u a b c' now s = (Inr r, s')"
    unfolding enqueue_def Let_def r_def op'_def s'_def by (simp only: nf if_False)
  have nu: "map_of (operations s) u = None" using u by (simp add: known_def map_of_eq_None_iff)
  then have su: "status_in (operations s) u = None" by (simp add: status_in_def)
  have B: "queue_ok (operations ?s1) (queue ?s1)"
    using p(2) su by (auto simp: queue_ok_def status_in_update)
  then have B2: "\<forall>i\<in>set (queue ?s2). map_of (operations ?s2) i \<noteq> None"
    using queue_ok_lookup[OF B] by simp
  note ch = processQueue_from_char[OF B2, of False now]
  have "admitted u a b c' now s r s'"
  proof (cases "isProcessing s")
    case True
    then have s1: "s' = ?s1" by (simp add: s'_def processQueue_def)
    show ?thesis using True nu
      by (simp add: admitted_def r_def op'_def s1 AList.update_conv')
  next
    case np: False
    then have q: "queue s = []" using worker_ok_idle(2)[OF p(4)] by simp
    have s2: "s' = processQueue_from False now ?s2" using np by (simp add: s'_def processQueue_def)
    show ?thesis
    proof (cases "serviceReady s")
      case True
      have s3: "s' = start_head now ?s2" unfolding s2 ch using True by simp
      show ?thesis using np nu q True
        by (simp add: admitted_def r_def op'_def s3 start_head_def AList.update_conv'
              lookup_map_entry)
    next
      case False
      have s3: "s' = (if serviceInitializing s then ?s2\<lparr>worker := PollInit\<rparr>
         else ?s2\<lparr>serviceInitializing := True, worker := AwaitInit,
                console := console ?s2 @ [LogInitializing]\<rparr>)"
        unfolding s2 ch using False by simp
      show ?thesis using np nu q False
        by (simp add: admitted_def r_def op'_def s3 AList.update_conv')
    qed
  qed
  with e False show ?thesis by auto
qed

lemma enqueue_admit:
  assumes "\<not> maxQueueSize \<le> length (queue s) + (if truthy (currentOperation s) then 1 else 0)"
  shows "snd (enqueue u a b c now s) = processQueue now (admit u a b c now s)"
  using assms by (simp add: enqueue_def Let_def admit_def)




lemma trace_of_snoc:
  "trace_of f (evs @ [e]) s = trace_of f evs s @ f (run evs s) (step e (run evs s))"
  by (induction evs arbitrary: s) (simp_all add: run_def)

lemma filter_eq_single:
  "distinct xs \<Longrightarrow> h \<in> set xs \<Longrightarrow> filter (\<lambda>i. i = h) xs = [h]"
  by (induction xs) (auto simp: filter_empty_conv)

lemma became_processing_current:
  assumes c: "consistent s" and c': "consistent s'"
  shows "became_processing s s' =
     (case currentOperation s' of
        None \<Rightarrow> []
      | Some h \<Rightarrow> if currentOperation s = Some h then [] else [h])"
proof -
  have p: "status_in (operations s) i = Some PROCESSING \<longleftrightarrow> currentOperation s = Some i" for i
    using wf_parts(3)[OF c, unfolded current_ok_def, rule_format, of i] by simp
  have p': "status_in (operations s') i = Some PROCESSING \<longleftrightarrow> currentOperation s' = Some i" for i
    using wf_parts(3)[OF c', unfolded current_ok_def, rule_format, of i] by simp
  have d: "distinct (map fst (operations s'))" using wf_parts(1)[OF c'] by (simp add: store_ok_def)
  show ?thesis
  proof (cases "currentOperation s'")
    case None
    then show ?thesis by (simp add: became_processing_def p')
  next
    case (Some h)
    show ?thesis
    proof (cases "currentOperation s = Some h")
      case True
      then show ?thesis using Some by (simp add: became_processing_def p p' filter_empty_conv)
    next
      case False
      have "status_in (operations s') h = Some PROCESSING" using p'[of h] Some by simp
      then have hk: "h \<in> set (map fst (operations s'))" using status_in_keys[of "operations s'" h] by simp
      have "(\<lambda>i. currentOperation s' = Some i \<and> currentOperation s \<noteq> Some i) = (\<lambda>i. i = h)"
        using Some False by auto
      then show ?thesis using Some False filter_eq_single[OF d hk]
        by (simp add: became_processing_def p p')
    qed
  qed
qed

lemma created_step:
  assumes c: "consistent s" and fresh: "\<forall>u\<in>set (uuid_of e). u \<noteq> [] \<and> u \<notin> known s"
  shows "created s (step e s) = filter (\<lambda>u. u \<in> set (map fst (operations (step e s)))) (uuid_of e)"
proof -
  let ?s' = "step e s"
  have c': "consistent ?s'" by (rule step_wf[OF c fresh])
  have d: "distinct (map fst (operations ?s'))" using wf_parts(1)[OF c'] by (simp add: store_ok_def)
  have k: "map_of (operations s) i = None \<longleftrightarrow> i \<in> set (uuid_of e)"
    if "i \<in> set (map fst (operations ?s'))" for i
  proof
    assume n: "map_of (operations s) i = None"
    from that obtain op' where "map_of (operations ?s') i = Some op'"
      by (metis domD dom_map_of_conv_image_fst set_map)
    then show "i \<in> set (uuid_of e)" using step_records[OF c fresh, of i] n
      by (auto split: if_splits)
  next
    assume "i \<in> set (uuid_of e)"
    then have "i \<notin> known s" using fresh by blast
    then show "map_of (operations s) i = None" by (simp add: known_def map_of_eq_None_iff)
  qed
  have 1: "created s ?s' = filter (\<lambda>i. i \<in> set (uuid_of e)) (map fst (operations ?s'))"
    unfolding created_def by (rule filter_cong) (simp_all add: k)
  have "uuid_of e = [] \<or> (\<exists>u. uuid_of e = [u])" by (cases e) simp_all
  then show ?thesis
  proof
    assume "uuid_of e = []"
    then show ?thesis unfolding 1 by simp
  next
    assume "\<exists>u. uuid_of e = [u]"
    then obtain u where u: "uuid_of e = [u]" by blast
    show ?thesis
    proof (cases "u \<in> set (map fst (operations ?s'))")
      case True
      have "filter (\<lambda>i. i \<in> set [u]) (map fst (operations ?s')) = [u]"
        using filter_eq_single[OF d True] by simp
      moreover have "filter (\<lambda>x. x \<in> set (map fst (operations ?s'))) [u] = [u]"
        using True by (simp del: set_map)
      ultimately show ?thesis unfolding 1 u by (simp only:)
    next
      case False
      have "filter (\<lambda>i. i \<in> set [u]) (map fst (operations ?s')) = []"
        using False by (auto simp: filter_empty_conv)
      moreover have "filter (\<lambda>x. x \<in> set (map fst (operations ?s'))) [u] = []"
        using False by (simp del: set_map)
      ultimately show ?thesis unfolding 1 u by (simp only:)
    qed
  qed
qed

lemma dropped_step:
  assumes c: "consistent s" and fresh: "\<forall>u\<in>set (uuid_of e). u \<noteq> [] \<and> u \<notin> known s"
  shows "i \<in> set (dropped s (step e s)) \<longleftrightarrow>
         i \<in> set (queue s) \<and> i \<notin> set (queue (step e s)) \<and> currentOperation (step e s) \<noteq> Some i"
proof -
  let ?s' = "step e s"
  have c': "consistent ?s'" by (rule step_wf[OF c fresh])
  note q = queue_ok_mem[OF wf_parts(2)[OF c], of i]
  note q' = queue_ok_mem[OF wf_parts(2)[OF c'], of i]
  note p' = wf_parts(3)[OF c', unfolded current_ok_def, rule_format, of i]
  show ?thesis
  proof
    assume "i \<in> set (dropped s ?s')"
    then have "status_in (operations s) i = Some QUEUED" "status_in (operations ?s') i = Some FAILED"
      by (simp_all add: dropped_def)
    then show "i \<in> set (queue s) \<and> i \<notin> set (queue ?s') \<and> currentOperation ?s' \<noteq> Some i"
      using q q' p' by simp
  next
    assume a: "i \<in> set (queue s) \<and> i \<notin> set (queue ?s') \<and> currentOperation ?s' \<noteq> Some i"
    then have sq: "status_in (operations s) i = Some QUEUED" using q by simp
    then obtain op where op: "map_of (operations s) i = Some op" "status op = QUEUED"
      by (auto simp: status_in_def)
    have ik: "i \<in> set (map fst (operations s))" using status_in_keys[OF sq] by simp
    then have "i \<in> known s" by (simp add: known_def)
    then have "i \<notin> set (uuid_of e)" using fresh by blast
    then have es: "entry_step (Some op) (map_of (operations ?s') i)"
      using step_records[OF c fresh, of i] op by simp
    have nq: "status_in (operations ?s') i \<noteq> Some QUEUED" using a q' by simp
    have np: "status_in (operations ?s') i \<noteq> Some PROCESSING" using a p' by simp
    have "status_in (operations ?s') i = Some FAILED"
    proof (cases "map_of (operations ?s') i")
      case None
      then show ?thesis using es op by simp
    next
      case (Some op')
      then have "record_step op op'" using es by simp
      then show ?thesis using op Some nq np
        by (auto simp: record_step_def transition_def status_in_def)
    qed
    then show "i \<in> set (dropped s ?s')" using sq ik by (simp add: dropped_def)
  qed
qed

lemma shape_filter:
  assumes d: "distinct (q @ c)" and n: "\<And>i. cur = Some i \<Longrightarrow> i \<notin> set (q @ c)"
    and sh: "schedule_shape q cur c q' cur'"
  shows "(case cur' of None \<Rightarrow> [] | Some h \<Rightarrow> if cur = Some h then [] else [h]) @ q' =
         filter (\<lambda>i. i \<notin> set q \<or> i \<in> set q' \<or> cur' = Some i) (q @ c)"
proof -
  consider (same) "q' = q @ c" "cur' = cur \<or> cur' = None"
    | (start) h where "q @ c = h # q'" "cur' = Some h"
    | (cancel) i where "c = []" "q' = remove1 i q" "cur' = cur"
    | (all) "c = []" "q' = []" "cur' = cur"
    using sh unfolding schedule_shape_def by blast
  then show ?thesis
  proof cases
    case same
    have "filter (\<lambda>i. i \<notin> set q \<or> i \<in> set q' \<or> cur' = Some i) (q @ c) = q @ c"
      unfolding filter_id_conv using same(1) by auto
    moreover have "(case cur' of None \<Rightarrow> [] | Some h \<Rightarrow> if cur = Some h then [] else [h]) = []"
      using same(2) by (auto split: option.splits)
    ultimately show ?thesis using same(1) by simp
  next
    case start
    have "filter (\<lambda>i. i \<notin> set q \<or> i \<in> set q' \<or> cur' = Some i) (h # q') = h # q'"
      unfolding filter_id_conv using start(2) by auto
    moreover have "cur \<noteq> Some h" using n[of h] start(1) by (metis list.set_intros(1))
    ultimately show ?thesis using start by simp
  next
    case cancel
    have dq: "distinct q" using d by simp
    have "filter (\<lambda>j. j \<notin> set q \<or> j \<in> set q' \<or> cur' = Some j) q = filter (\<lambda>j. j \<noteq> i) q"
    proof (rule filter_cong[OF refl])
      fix j assume j: "j \<in> set q"
      then have "cur' \<noteq> Some j" using n[of j] cancel by auto
      then show "(j \<notin> set q \<or> j \<in> set q' \<or> cur' = Some j) = (j \<noteq> i)"
        using j dq cancel(2) by auto
    qed
    also have "\<dots> = remove1 i q"
      using dq by (simp add: distinct_remove1_removeAll removeAll_filter_not_eq) metis
    finally show ?thesis using cancel by (auto split: option.splits)
  next
    case all
    have "filter (\<lambda>j. j \<notin> set q \<or> j \<in> set q' \<or> cur' = Some j) q = []"
      unfolding filter_empty_conv using n all by auto
    then show ?thesis using all by (auto split: option.splits)
  qed
qed

lemma processQueue_from_schedule:
  assumes lk: "\<forall>i\<in>set (queue t). map_of (operations t) i \<noteq> None"
  shows "(queue (processQueue_from b now t) = queue t \<and>
          currentOperation (processQueue_from b now t) = currentOperation t) \<or>
         (\<exists>h. queue t = h # queue (processQueue_from b now t) \<and>
              currentOperation (processQueue_from b now t) = Some h)"
proof (cases "queue t")
  case Nil
  then show ?thesis by (simp add: processQueue_from_char[OF lk])
next
  case (Cons h rest)
  then show ?thesis by (simp add: processQueue_from_char[OF lk] start_head_def)
qed

lemma schedule_shape_loop:
  assumes "(q1 = q @ c \<and> cur1 = cur) \<or> (\<exists>h. q @ c = h # q1 \<and> cur1 = Some h)"
  shows "schedule_shape q cur c q1 cur1"
  using assms unfolding schedule_shape_def by blast

lemma schedule_shape_same: "schedule_shape q cur [] q cur"
  unfolding schedule_shape_def by simp

lemma enqueue_schedule:
  assumes c: "consistent s" and u: "u \<notin> known s"
  shows "schedule_shape (queue s) (currentOperation s)
           (filter (\<lambda>i. i \<in> set (map fst (operations (snd (enqueue u a b c' now s))))) [u])
           (queue (snd (enqueue u a b c' now s)))
           (currentOperation (snd (enqueue u a b c' now s)))"
proof (cases "maxQueueSize \<le> pending_records s")
  case True
  then have e: "enqueue u a b c' now s = (Inl (QueueFull maxQueueSize), s)"
    using enqueue_result[OF c u, of a b c' now] by simp
  have "u \<notin> set (map fst (operations s))" using u by (simp add: known_def)
  then have "filter (\<lambda>i. i \<in> set (map fst (operations s))) [u] = []" by (simp del: set_map)
  then show ?thesis unfolding e snd_conv by (simp only: schedule_shape_same)
next
  case False
  then obtain r s' where e: "enqueue u a b c' now s = (Inr r, s')"
    and ad: "admitted u a b c' now s r s'"
    using enqueue_result[OF c u, of a b c' now] by auto
  have "map_of (operations s') u \<noteq> None" using ad by (auto simp: admitted_def split: option.splits)
  then have "u \<in> set (map fst (operations s'))" by (simp add: map_of_eq_None_iff)
  then have f: "filter (\<lambda>i. i \<in> set (map fst (operations s'))) [u] = [u]" by (simp del: set_map)
  have nf: "\<not> maxQueueSize \<le> length (queue s) + (if truthy (currentOperation s) then 1 else 0)"
    using False by (simp add: pending_records_count[OF c])
  have s': "s' = processQueue now (admit u a b c' now s)"
    using enqueue_admit[OF nf, of u a b c' now] e by simp
  let ?t = "(admit u a b c' now s)\<lparr>isProcessing := True\<rparr>"
  have lk: "\<forall>i\<in>set (queue ?t). map_of (operations ?t) i \<noteq> None"
    using queue_ok_lookup[OF wf_parts(2)[OF c]]
    by (auto simp: admit_def update_conv')
  have qt: "queue ?t = queue s @ [u]" "currentOperation ?t = currentOperation s"
    by (simp_all add: admit_def)
  have "(queue s' = queue s @ [u] \<and> currentOperation s' = currentOperation s) \<or>
        (\<exists>h. queue s @ [u] = h # queue s' \<and> currentOperation s' = Some h)"
  proof (cases "isProcessing (admit u a b c' now s)")
    case True
    then show ?thesis unfolding s' by (simp add: processQueue_def admit_def)
  next
    case False
    then have "s' = processQueue_from False now ?t" unfolding s' by (simp add: processQueue_def)
    then show ?thesis using processQueue_from_schedule[OF lk, of False now] qt by simp
  qed
  then show ?thesis unfolding e snd_conv f by (rule schedule_shape_loop)
qed

lemma cancel_schedule:
  "schedule_shape (queue s) (currentOperation s) []
     (queue (snd (cancel i now s))) (currentOperation (snd (cancel i now s)))"
  unfolding schedule_shape_def
  by (auto simp: cancel_def split: option.splits)

lemma processQueue_after_init_schedule:
  assumes lk: "\<forall>i\<in>set (queue t). map_of (operations t) i \<noteq> None"
  shows "schedule_shape (queue t) (currentOperation t) []
     (queue (processQueue_after_init ready now t))
     (currentOperation (processQueue_after_init ready now t))"
proof (cases ready)
  case False
  then show ?thesis unfolding schedule_shape_def by (simp add: processQueue_after_init_def)
next
  case True
  then have "processQueue_after_init ready now t = processQueue_from True now t"
    by (simp add: processQueue_after_init_def)
  then show ?thesis using processQueue_from_schedule[OF lk, of True now]
    by (intro schedule_shape_loop) simp
qed

lemma initializeService_settled_schedule:
  assumes lk: "\<forall>i\<in>set (queue s). map_of (operations s) i \<noteq> None"
  shows "schedule_shape (queue s) (currentOperation s) []
     (queue (initializeService_settled outcome now s))
     (currentOperation (initializeService_settled outcome now s))"
proof (cases "worker s = AwaitInit")
  case True
  let ?t = "s\<lparr>serviceReady := init_result outcome,
                console := console s @ [init_log outcome], serviceInitializing := False\<rparr>"
  have lk': "\<forall>i\<in>set (queue ?t). map_of (operations ?t) i \<noteq> None" using lk by simp
  show ?thesis using processQueue_after_init_schedule[OF lk', of "init_result outcome" now] True
    by (simp add: initializeService_settled_char)
next
  case False
  then show ?thesis by (simp add: initializeService_settled_char schedule_shape_same)
qed

lemma initializeService_poll_schedule:
  assumes lk: "\<forall>i\<in>set (queue s). map_of (operations s) i \<noteq> None"
  shows "schedule_shape (queue s) (currentOperation s) []
     (queue (initializeService_poll now s))
     (currentOperation (initializeService_poll now s))"
  using processQueue_after_init_schedule[OF lk, of "serviceReady s" now]
  by (simp add: initializeService_poll_def schedule_shape_same)

lemma race_settled_schedule:
  assumes lk: "\<forall>i\<in>set (queue s). map_of (operations s) i \<noteq> None"
  shows "schedule_shape (queue s) (currentOperation s) []
     (queue (race_settled i outcome now s))
     (currentOperation (race_settled i outcome now s))"
proof (cases "worker s = AwaitExec i")
  case False
  then show ?thesis by (simp add: race_settled_def schedule_shape_same)
next
  case True
  define t where "t = (case outcome of
                  Inr res \<Rightarrow>
                    s\<lparr>operations := AList.map_entry i
                        (\<lambda>op. op\<lparr>status := COMPLETED, result := Some res, updatedAt := now\<rparr>)
                        (operations s),
                      console := console s @ [LogCompleted i]\<rparr>
                | Inl msg \<Rightarrow>
                    s\<lparr>operations := AList.map_entry i
                        (\<lambda>op. op\<lparr>status := FAILED, error := Some msg, updatedAt := now\<rparr>)
                        (operations s),
                      console := console s @ [LogFailed i msg]\<rparr>)\<lparr>currentOperation := None\<rparr>"
  have r: "race_settled i outcome now s = processQueue_from False now t"
    using True by (simp add: race_settled_def processQueue_after_exec_def t_def)
  have qt: "queue t = queue s" "currentOperation t = None"
    by (simp_all add: t_def split: sum.splits)
  have lk': "\<forall>j\<in>set (queue t). map_of (operations t) j \<noteq> None"
    using lk by (auto simp: t_def lookup_map_entry split: sum.splits)
  show ?thesis using processQueue_from_schedule[OF lk', of False now] unfolding r qt
    unfolding schedule_shape_def by auto
qed

lemma step_schedule:
  assumes c: "consistent s" and fresh: "\<forall>u\<in>set (uuid_of e). u \<noteq> [] \<and> u \<notin> known s"
  shows "schedule_shape (queue s) (currentOperation s) (created s (step e s))
           (queue (step e s)) (currentOperation (step e s))"
proof -
  note lk = queue_ok_lookup[OF wf_parts(2)[OF c]]
  have "schedule_shape (queue s) (currentOperation s)
          (filter (\<lambda>u. u \<in> set (map fst (operations (step e s)))) (uuid_of e))
          (queue (step e s)) (currentOperation (step e s))"
  proof (cases e)
    case (Enqueue u a b c' now)
    then have un: "u \<notin> known s" using fresh by simp
    show ?thesis unfolding Enqueue step.simps uuid_of.simps
      by (rule enqueue_schedule[OF c un])
  next
    case (Cancel i now)
    then show ?thesis using cancel_schedule[of s i now] by simp
  next
    case InitCall
    then show ?thesis by (simp add: initializeService_call_def schedule_shape_same)
  next
    case (InitSettled outcome now)
    then show ?thesis using initializeService_settled_schedule[OF lk, of outcome now]
      by (simp add: schedule_shape_same)
  next
    case (PollWake now)
    then show ?thesis using initializeService_poll_schedule[OF lk, of now]
      by (simp add: schedule_shape_same)
  next
    case (ServiceObtained i now)
    then show ?thesis by (simp add: executeOperation_progress_def schedule_shape_same)
  next
    case (ExecSettled i outcome now)
    let ?t = "s\<lparr>executing := AList.delete i (executing s)\<rparr>"
    have lk': "\<forall>j\<in>set (queue ?t). map_of (operations ?t) j \<noteq> None" using lk by simp
    show ?thesis using race_settled_schedule[OF lk', of i outcome now] unfolding ExecSettled
      by (simp add: schedule_shape_same split: option.splits)
  next
    case (TimerFired i now)
    let ?t = "s\<lparr>timers := AList.delete i (timers s)\<rparr>"
    have lk': "\<forall>j\<in>set (queue ?t). map_of (operations ?t) j \<noteq> None" using lk by simp
    show ?thesis using race_settled_schedule[OF lk', of i "Inl ''Operation timed out''" now]
      unfolding TimerFired
      by (simp add: schedule_shape_same split: option.splits)
  next
    case (CleanupTick now)
    then show ?thesis by (simp add: cleanupOldOperations_def Let_def schedule_shape_same)
  qed
  then show ?thesis by (simp only: created_step[OF c fresh])
qed

lemma subseq_distinct: "subseq xs ys \<Longrightarrow> distinct ys \<Longrightarrow> distinct xs"
  by (induction rule: list_emb.induct) (auto dest: list_emb_set)

lemma subseq_set: "subseq xs ys \<Longrightarrow> set xs \<subseteq> set ys"
  by (auto dest: list_emb_set)

lemma filter_notin_id: "set d \<inter> set xs = {} \<Longrightarrow> filter (\<lambda>i. i \<notin> set d) xs = xs"
  unfolding filter_id_conv by blast

lemma schedule_ok_step:
  assumes f: "fresh_uuids (evs @ [e])" and c: "consistent s" and s: "s = run evs new_VeedQueue"
    and fresh: "\<forall>u\<in>set (uuid_of e). u \<noteq> [] \<and> u \<notin> known s"
    and ih: "schedule_ok evs s"
  shows "schedule_ok (evs @ [e]) (step e s)"
proof -
  let ?s' = "step e s"
  define PO where "PO = processing_order evs"
  define AO where "AO = admitted_order evs"
  define DR where "DR = dropped_ids evs"
  define bp where "bp = became_processing s ?s'"
  define cr where "cr = created s ?s'"
  define d where "d = dropped s ?s'"
  define q where "q = queue s"
  define q' where "q' = queue ?s'"
  define cur where "cur = currentOperation s"
  define cur' where "cur' = currentOperation ?s'"
  have c': "consistent ?s'" by (rule step_wf[OF c fresh])
  have po: "processing_order (evs @ [e]) = PO @ bp"
    and ao: "admitted_order (evs @ [e]) = AO @ cr"
    and dr: "dropped_ids (evs @ [e]) = DR @ d"
    by (simp_all add: processing_order_def admitted_order_def dropped_ids_def trace_of_snoc
          PO_def AO_def DR_def bp_def cr_def d_def s)
  have ih1: "PO @ q = filter (\<lambda>i. i \<notin> set DR) AO"
    and ih2: "subseq AO (uuids evs)" and ih3: "set DR \<subseteq> set (uuids evs)"
    using ih by (simp_all add: schedule_ok_def PO_def AO_def DR_def q_def)
  have du: "distinct (uuids evs @ uuid_of e)" using f by (simp add: fresh_uuids_def uuids_snoc)
  have dAO: "distinct AO" using subseq_distinct[OF ih2] du by simp
  have dPOq: "distinct (PO @ q)" unfolding ih1 using dAO by simp
  have AOu: "set AO \<subseteq> set (uuids evs)" by (rule subseq_set[OF ih2])
  have qAO: "set q \<subseteq> set AO"
  proof -
    have "set q \<subseteq> set (PO @ q)" by simp
    also have "\<dots> \<subseteq> set AO" unfolding ih1 by auto
    finally show ?thesis .
  qed
  have cr_eq: "cr = filter (\<lambda>u. u \<in> set (map fst (operations ?s'))) (uuid_of e)"
    unfolding cr_def by (rule created_step[OF c fresh])
  have cre: "set cr \<subseteq> set (uuid_of e)" unfolding cr_eq by auto
  have dcr: "distinct cr" unfolding cr_eq using du by simp
  have disj: "set (uuids evs) \<inter> set (uuid_of e) = {}" using du by auto
  have dmem: "i \<in> set d \<longleftrightarrow> i \<in> set q \<and> i \<notin> set q' \<and> cur' \<noteq> Some i" for i
    unfolding d_def q_def q'_def cur'_def by (rule dropped_step[OF c fresh])
  have dq: "set d \<subseteq> set q" using dmem by blast
  have dqc: "distinct (q @ cr)"
    using dPOq dcr qAO AOu cre disj by auto
  have n: "i \<notin> set (q @ cr)" if "cur = Some i" for i
  proof -
    have p: "status_in (operations s) i = Some PROCESSING"
      using wf_parts(3)[OF c, unfolded current_ok_def, rule_format, of i] that by (simp add: cur_def)
    then have "i \<notin> set q" using queue_ok_mem[OF wf_parts(2)[OF c], of i] by (simp add: q_def)
    moreover have "i \<in> known s" using status_in_keys[OF p] by (simp add: known_def)
    then have "i \<notin> set (uuid_of e)" using fresh by blast
    then have "i \<notin> set cr" using cre by blast
    ultimately show ?thesis by simp
  qed
  have sh: "schedule_shape q cur cr q' cur'"
    unfolding q_def cur_def cr_def q'_def cur'_def by (rule step_schedule[OF c fresh])
  have bp_eq: "bp = (case cur' of None \<Rightarrow> [] | Some h \<Rightarrow> if cur = Some h then [] else [h])"
    unfolding bp_def cur_def cur'_def by (rule became_processing_current[OF c c'])
  have "bp @ q' = filter (\<lambda>i. i \<notin> set q \<or> i \<in> set q' \<or> cur' = Some i) (q @ cr)"
    unfolding bp_eq by (rule shape_filter[OF dqc n sh])
  also have "\<dots> = filter (\<lambda>i. i \<notin> set d) (q @ cr)"
    by (rule filter_cong[OF refl]) (simp add: dmem)
  finally have main: "bp @ q' = filter (\<lambda>i. i \<notin> set d) (q @ cr)" .
  have "set d \<inter> set PO = {}" using dq dPOq by auto
  then have fPO: "filter (\<lambda>i. i \<notin> set d) PO = PO" by (rule filter_notin_id)
  have "filter (\<lambda>i. i \<notin> set (DR @ d)) AO = filter (\<lambda>i. i \<notin> set d) (filter (\<lambda>i. i \<notin> set DR) AO)"
    by (simp add: conj_commute)
  also have "\<dots> = filter (\<lambda>i. i \<notin> set d) (PO @ q)" by (simp only: ih1)
  also have "\<dots> = PO @ filter (\<lambda>i. i \<notin> set d) q" using fPO by simp
  finally have fAO: "filter (\<lambda>i. i \<notin> set (DR @ d)) AO = PO @ filter (\<lambda>i. i \<notin> set d) q" .
  have "set DR \<inter> set cr = {}" using ih3 cre disj by blast
  then have fcr: "filter (\<lambda>i. i \<notin> set (DR @ d)) cr = filter (\<lambda>i. i \<notin> set d) cr"
    by (intro filter_cong[OF refl]) auto
  have a: "(PO @ bp) @ q' = filter (\<lambda>i. i \<notin> set (DR @ d)) (AO @ cr)"
    using main fAO fcr by simp
  have b: "subseq (AO @ cr) (uuids evs @ uuid_of e)"
    unfolding cr_eq using ih2 by (intro list_emb_append_mono) simp_all
  have "set d \<subseteq> set (uuids evs)" using dq qAO AOu by blast
  then have cc: "set (DR @ d) \<subseteq> set (uuids evs @ uuid_of e)" using ih3 by auto
  show ?thesis unfolding schedule_ok_def po ao dr uuids_snoc
    using a b cc by (simp only: q'_def simp_thms)
qed

lemma reachable_schedule:
  assumes "fresh_uuids evs"
  shows "schedule_ok evs (run evs new_VeedQueue)"
  using assms
proof (induction rule: reachable_induct)
  case init
  show ?case
    by (simp add: schedule_ok_def processing_order_def admitted_order_def dropped_ids_def
          uuids_def new_VeedQueue_def)
next
  case (step evs e)
  show ?case by (rule schedule_ok_step[OF step(1,2) refl step(3,4)])
qed

lemma cancel_queue:
  assumes c: "consistent s"
  shows "queue (step (Cancel i now) s) = filter (\<lambda>j. j \<noteq> i) (queue s)"
proof -
  note qo = wf_parts(2)[OF c]
  have d: "distinct (queue s)" using qo by (simp add: queue_ok_def)
  show ?thesis
  proof (cases "status_in (operations s) i = Some QUEUED")
    case True
    then obtain op where "map_of (operations s) i = Some op" "status op = QUEUED"
      by (auto simp: status_in_def)
    then have "queue (step (Cancel i now) s) = remove1 i (queue s)"
      by (simp add: cancel_def)
    also have "\<dots> = filter (\<lambda>j. j \<noteq> i) (queue s)"
      using d by (simp add: distinct_remove1_removeAll removeAll_filter_not_eq) metis
    finally show ?thesis .
  next
    case False
    then have "i \<notin> set (queue s)" using qo by (simp add: queue_ok_def)
    then have "filter (\<lambda>j. j \<noteq> i) (queue s) = queue s" by (simp add: filter_id_conv) blast
    moreover have "queue (step (Cancel i now) s) = queue s"
      using False by (auto simp: cancel_def status_in_def split: option.splits)
    ultimately show ?thesis by simp
  qed
qed

lemma cancel_starts_nothing:
  assumes c: "consistent s"
  shows "became_processing s (step (Cancel i now) s) = []"
proof -
  have c': "consistent (step (Cancel i now) s)" by (rule step_wf[OF c]) simp
  have "currentOperation (step (Cancel i now) s) = currentOperation s"
    by (simp add: cancel_def split: option.splits)
  then show ?thesis unfolding became_processing_current[OF c c']
    by (simp split: option.splits)
qed

section \<open>The claims\<close>

lemmas eval_simps = run_def enqueue_def processQueue_def
  processQueue_from.simps new_VeedQueue_def Let_def maxQueueSize_def
  initializeService_settled_def processQueue_after_init_def processQueue_after_exec_def
  race_settled_def cancel_def initializeService_call_def initializeService_poll_def
  executeOperation_progress_def cleanupOldOperations_def expired_def operationTTL_def
  operationTimeout_def

subsection \<open>C1: one operation is processed at a time\<close>

lemma filter_keys_length:
  assumes d: "distinct (map fst ops)"
    and c: "\<And>i op. map_of ops i = Some op \<Longrightarrow> P op \<Longrightarrow> i \<in> A"
    and f: "finite A"
  shows "length (filter (\<lambda>(i, op). P op) ops) \<le> card A"
proof -
  let ?xs = "filter (\<lambda>(i, op). P op) ops"
  have dx: "distinct (map fst ?xs)" using d by (rule distinct_map_filter)
  have "set (map fst ?xs) \<subseteq> A"
  proof
    fix i assume "i \<in> set (map fst ?xs)"
    then obtain op where "(i, op) \<in> set ops" "P op" by auto
    then show "i \<in> A" using c[of i op] d by simp
  qed
  then have "card (set (map fst ?xs)) \<le> card A" using f by (rule card_mono[rotated])
  then show ?thesis using distinct_card[OF dx] by simp
qed

text \<open>
  Claim C1. In every state the queue can reach, by any sequence of enqueue and cancel
  calls, initialization outcomes, executor outcomes, timeouts and cleanup sweeps, at most
  one record of the operation store has status \<open>PROCESSING\<close>.
\<close>

theorem at_most_one_processing:
  assumes "fresh_uuids evs"
  shows "length (filter (\<lambda>(i, op). status op = PROCESSING)
                  (operations (run evs new_VeedQueue))) \<le> 1"
proof -
  let ?s = "run evs new_VeedQueue"
  note p = wf_parts[OF reachable_wf(1)[OF assms]]
  have "length (filter (\<lambda>(i, op). status op = PROCESSING) (operations ?s))
          \<le> card (set_option (currentOperation ?s))"
  proof (rule filter_keys_length)
    show "distinct (map fst (operations ?s))" using p(1) by (simp add: store_ok_def)
    fix i op assume "map_of (operations ?s) i = Some op" "status op = PROCESSING"
    then have "status_in (operations ?s) i = Some PROCESSING" by (simp add: status_in_def)
    then show "i \<in> set_option (currentOperation ?s)"
      using p(3)[unfolded current_ok_def, rule_format, of i] by simp
  qed simp
  also have "\<dots> \<le> 1" by (cases "currentOperation ?s") simp_all
  finally show ?thesis .
qed

theorem at_most_one_processing_witness:
  "fresh_uuids run_one_processing \<and>
   length (filter (\<lambda>(i, op). status op = PROCESSING)
             (operations (run run_one_processing new_VeedQueue))) \<le> 1 \<and>
   currentOperation (run run_one_processing new_VeedQueue) = Some ''a'' \<and>
   queue (run run_one_processing new_VeedQueue) = [''b'', ''c'']"
proof -
  have h: "fresh_uuids run_one_processing"
    by (simp add: fresh_uuids_def uuids_def run_one_processing_def)
  have "currentOperation (run run_one_processing new_VeedQueue) = Some ''a''"
    "queue (run run_one_processing new_VeedQueue) = [''b'', ''c'']"
    by (simp_all add: run_one_processing_def eval_simps)
  then show ?thesis using h at_most_one_processing[OF h] by simp
qed

subsection \<open>C2: the life of a record\<close>




subsection \<open>C3: first in, first out\<close>

text \<open>
  Claim C3. Records reach status \<open>PROCESSING\<close> in arrival order. Take any run of events
  from the initial state. List the ids in the order in which their record became
  \<open>PROCESSING\<close>, followed by the ids still in the pending queue: this is exactly the list
  of the ids in the order in which their record was created, without the ids whose record
  went from \<open>QUEUED\<close> straight to \<open>FAILED\<close>. So a record becomes \<open>PROCESSING\<close> only
  after every record that arrived before it and stayed queued, and the pending queue
  holds the rest in arrival order. The arrivals never repeat.
  Cancelling an operation \<open>i\<close> removes \<open>i\<close> from the pending queue, leaves the order of
  the rest as it was, and makes no record \<open>PROCESSING\<close>. Enqueue A, B, C and cancel B:
  the records become \<open>PROCESSING\<close> in the order A, C.
\<close>

theorem fifo_order:
  assumes "fresh_uuids evs"
  shows "processing_order evs @ queue (run evs new_VeedQueue) =
           filter (\<lambda>i. i \<notin> set (dropped_ids evs)) (admitted_order evs) \<and>
         distinct (admitted_order evs) \<and> subseq (admitted_order evs) (uuids evs) \<and>
         (\<forall>i now. queue (step (Cancel i now) (run evs new_VeedQueue)) =
                      filter (\<lambda>j. j \<noteq> i) (queue (run evs new_VeedQueue)) \<and>
                    became_processing (run evs new_VeedQueue)
                      (step (Cancel i now) (run evs new_VeedQueue)) = [])"
proof -
  note sc = reachable_schedule[OF assms, unfolded schedule_ok_def]
  note c = reachable_wf(1)[OF assms]
  have 1: "processing_order evs @ queue (run evs new_VeedQueue) =
           filter (\<lambda>i. i \<notin> set (dropped_ids evs)) (admitted_order evs)" using sc by simp
  have 3: "subseq (admitted_order evs) (uuids evs)" using sc by simp
  have 2: "distinct (admitted_order evs)"
    using subseq_distinct[OF 3] assms by (simp add: fresh_uuids_def)
  show ?thesis using 1 2 3 cancel_queue[OF c] cancel_starts_nothing[OF c] by blast
qed

theorem fifo_order_witness:
  "fresh_uuids run_cancel_second \<and>
   admitted_order run_cancel_second = [''A'', ''B'', ''C''] \<and>
   dropped_ids run_cancel_second = [''B''] \<and>
   processing_order run_cancel_second = [''A'', ''C''] \<and>
   queue (run run_cancel_second new_VeedQueue) = [] \<and>
   [''A'', ''C''] @ [] = filter (\<lambda>i. i \<notin> set [''B'']) [''A'', ''B'', ''C'']"
proof -
  have h: "fresh_uuids run_cancel_second"
    by (simp add: fresh_uuids_def uuids_def run_cancel_second_def)
  have e1: "admitted_order run_cancel_second = [''A'', ''B'', ''C'']"
    by (simp add: run_cancel_second_def admitted_order_def created_def eval_simps)
  have e2: "dropped_ids run_cancel_second = [''B'']"
    by (simp add: run_cancel_second_def dropped_ids_def dropped_def status_in_def eval_simps)
  have e3: "processing_order run_cancel_second = [''A'', ''C'']"
    by (simp add: run_cancel_second_def processing_order_def became_processing_def
          status_in_def eval_simps)
  have e4: "queue (run run_cancel_second new_VeedQueue) = []"
    by (simp add: run_cancel_second_def eval_simps)
  show ?thesis using h fifo_order[OF h] unfolding e1 e2 e3 e4 by simp
qed

subsection \<open>C4: admission\<close>




subsection \<open>C5: timeouts and executor failures stay inside the drain loop\<close>

text \<open>
  Claim C5. While an operation \<open>i\<close> is being processed, a timeout of 300000 ms is set
  for it. When that timeout fires before the executor has settled, or when the executor
  fails with a message, the record of \<open>i\<close> becomes \<open>FAILED\<close> with the timeout error
  "Operation timed out", or with the executor's message; nothing is thrown, and the
  drain loop goes on to the next pending operation, or becomes idle when there is none.
\<close>

theorem failure_contained:
  assumes f: "fresh_uuids evs"
    and cur: "currentOperation (run evs new_VeedQueue) = Some i"
  shows "map_of (timers (run evs new_VeedQueue)) i = Some 300000 \<and>
         failed_and_continued i ''Operation timed out'' (run evs new_VeedQueue)
           (step (TimerFired i now) (run evs new_VeedQueue)) \<and>
         failed_and_continued i msg (run evs new_VeedQueue)
           (step (ExecSettled i (Inl msg) now) (run evs new_VeedQueue))"
proof -
  let ?s = "run evs new_VeedQueue"
  note c = reachable_wf(1)[OF f]
  note p = wf_parts[OF c]
  have w: "worker ?s = AwaitExec i" using worker_ok_current(1)[OF p(4), where i = i] cur by simp
  have tm: "map_of (timers ?s) i = Some operationTimeout"
    and ex: "map_of (executing ?s) i \<noteq> None"
    using p(5) cur unfolding pending_ok_def by simp_all
  have e1: "step (TimerFired i now) ?s = race_settled i (Inl ''Operation timed out'') now
                   (?s\<lparr>timers := AList.delete i (timers ?s)\<rparr>)"
    using tm by simp
  have e2: "step (ExecSettled i (Inl msg) now) ?s = race_settled i (Inl msg) now
                   (?s\<lparr>executing := AList.delete i (executing ?s)\<rparr>)"
    using ex by auto
  have c1: "consistent (step (TimerFired i now) ?s)" by (rule step_wf[OF c]) simp
  have c2: "consistent (step (ExecSettled i (Inl msg) now) ?s)" by (rule step_wf[OF c]) simp
  have 1: "failed_and_continued i ''Operation timed out'' ?s (step (TimerFired i now) ?s)"
    unfolding e1 by (rule race_settled_failed_and_continued[OF c w]) (use c1 e1 in simp_all)
  have 2: "failed_and_continued i msg ?s (step (ExecSettled i (Inl msg) now) ?s)"
    unfolding e2 by (rule race_settled_failed_and_continued[OF c w]) (use c2 e2 in simp_all)
  show ?thesis using tm 1 2 by (simp add: operationTimeout_def)
qed

theorem failure_contained_witness:
  "fresh_uuids run_one_processing \<and>
   currentOperation (run run_one_processing new_VeedQueue) = Some ''a'' \<and>
   queue (run run_one_processing new_VeedQueue) = [''b'', ''c''] \<and>
   map_of (timers (run run_one_processing new_VeedQueue)) ''a'' = Some 300000 \<and>
   failed_and_continued ''a'' ''Operation timed out'' (run run_one_processing new_VeedQueue)
     (step (TimerFired ''a'' 300030) (run run_one_processing new_VeedQueue)) \<and>
   currentOperation (step (TimerFired ''a'' 300030) (run run_one_processing new_VeedQueue))
     = Some ''b''"
proof -
  have h: "fresh_uuids run_one_processing"
    by (simp add: fresh_uuids_def uuids_def run_one_processing_def)
  have c: "currentOperation (run run_one_processing new_VeedQueue) = Some ''a''"
    and q: "queue (run run_one_processing new_VeedQueue) = [''b'', ''c'']"
    by (simp_all add: run_one_processing_def eval_simps)
  note t = failure_contained[OF h c, of 300030 "''Generate button not found''"]
  note t1 = t[THEN conjunct1] and t2 = t[THEN conjunct2, THEN conjunct1]
  from t2 have cb: "currentOperation (step (TimerFired ''a'' 300030) (run run_one_processing new_VeedQueue))
     = Some ''b''"
    unfolding failed_and_continued_def q by (simp del: step.simps)
  show ?thesis by (intro conjI h c q t1 t2 cb)
qed

subsection \<open>C6: the service cannot be initialized\<close>

text \<open>
  Claim C6. When the drain loop waits for the initialization of the service and the
  initialization fails (it returns false or throws), every record in the pending queue
  becomes \<open>FAILED\<close> with the error "Veed service not available", the pending queue
  becomes empty and the drain loop stops. The same happens when the drain loop polled
  somebody else's initialization and finds it finished without success.
\<close>

theorem readiness_failure:
  assumes f: "fresh_uuids evs" and o: "outcome \<noteq> Inr True"
  shows "(worker (run evs new_VeedQueue) = AwaitInit \<longrightarrow>
            all_failed_unavailable now (run evs new_VeedQueue)
              (step (InitSettled outcome now) (run evs new_VeedQueue))) \<and>
         (worker (run evs new_VeedQueue) = PollInit \<and>
          \<not> serviceInitializing (run evs new_VeedQueue) \<and> \<not> serviceReady (run evs new_VeedQueue) \<longrightarrow>
            all_failed_unavailable now (run evs new_VeedQueue)
              (step (PollWake now) (run evs new_VeedQueue)))"
proof (intro conjI impI)
  let ?s = "run evs new_VeedQueue"
  note c = reachable_wf(1)[OF f]
  note p = wf_parts[OF c]
  have r: "init_result outcome = False"
    using o by (cases outcome) (auto simp: init_result_def)
  {
    assume w: "worker ?s = AwaitInit"
    then have si: "serviceInitializing ?s" using p(4) unfolding worker_ok_def by blast
    have cur: "currentOperation ?s = None" by (rule worker_not_exec_current[OF p(4)]) (simp add: w)
    let ?s2 = "?s\<lparr>serviceReady := False,
                  console := console ?s @ [init_log outcome], serviceInitializing := False\<rparr>"
    have e: "step (InitSettled outcome now) ?s = processQueue_after_init False now ?s2"
      using si w r by (simp add: initializeService_settled_char)
    have "all_failed_unavailable now ?s2 (processQueue_after_init False now ?s2)"
      by (rule processQueue_after_init_failed) (use p(2) cur in simp_all)
    then show "all_failed_unavailable now ?s (step (InitSettled outcome now) ?s)"
      unfolding e by (simp add: all_failed_unavailable_def)
  }
  {
    assume w: "worker ?s = PollInit \<and> \<not> serviceInitializing ?s \<and> \<not> serviceReady ?s"
    have cur: "currentOperation ?s = None" by (rule worker_not_exec_current[OF p(4)]) (simp add: w)
    have e: "step (PollWake now) ?s = processQueue_after_init False now ?s"
      using w by (simp add: initializeService_poll_def)
    show "all_failed_unavailable now ?s (step (PollWake now) ?s)"
      unfolding e by (rule processQueue_after_init_failed) (use p(2) cur w in simp_all)
  }
qed

theorem readiness_failure_witness:
  "fresh_uuids run_three_waiting \<and> Inl ''Cookie file not found'' \<noteq> (Inr True :: string + bool) \<and>
   worker (run run_three_waiting new_VeedQueue) = AwaitInit \<and>
   queue (run run_three_waiting new_VeedQueue) = [''A'', ''B'', ''C''] \<and>
   all_failed_unavailable 40 (run run_three_waiting new_VeedQueue)
     (step (InitSettled (Inl ''Cookie file not found'') 40) (run run_three_waiting new_VeedQueue)) \<and>
   map (\<lambda>(i, op). (i, status op, error op))
     (operations (run (run_three_waiting @ [InitSettled (Inl ''Cookie file not found'') 40])
        new_VeedQueue)) =
     [(''A'', FAILED, Some ''Veed service not available''),
      (''B'', FAILED, Some ''Veed service not available''),
      (''C'', FAILED, Some ''Veed service not available'')]"
proof -
  have h: "fresh_uuids run_three_waiting"
    by (simp add: fresh_uuids_def uuids_def run_three_waiting_def)
  have o: "Inl ''Cookie file not found'' \<noteq> (Inr True :: string + bool)" by simp
  have w: "worker (run run_three_waiting new_VeedQueue) = AwaitInit"
    and q: "queue (run run_three_waiting new_VeedQueue) = [''A'', ''B'', ''C'']"
    by (simp_all add: run_three_waiting_def eval_simps)
  have m: "map (\<lambda>(i, op). (i, status op, error op))
     (operations (run (run_three_waiting @ [InitSettled (Inl ''Cookie file not found'') 40])
        new_VeedQueue)) =
     [(''A'', FAILED, Some ''Veed service not available''),
      (''B'', FAILED, Some ''Veed service not available''),
      (''C'', FAILED, Some ''Veed service not available'')]"
    by (simp add: run_three_waiting_def eval_simps)
  note t = readiness_failure[OF h o, of 40, THEN conjunct1, rule_format, OF w]
  show ?thesis by (intro conjI h o w q t m)
qed

subsection \<open>C7: cancelling\<close>

text \<open>
  Claim C7, amended. For every call to \<^verbatim>\<open>cancel(id)\<close>: if no record with that id
  exists it fails with the not-found error (\<open>OperationNotFound\<close>) and changes nothing; if
  the status of the record is not \<open>QUEUED\<close> (so also for a record that is already
  \<open>FAILED\<close>, such as one cancelled before) it fails with the invalid-state error
  (\<open>CannotCancel\<close>), and leaves the record and the queue unchanged; otherwise it removes
  the id from the pending queue and sets the status of the record to \<open>FAILED\<close> with the
  error "Cancelled by user". The error text starts with a capital letter: it is not
  "cancelled by user".
\<close>

theorem cancel_contract:
  assumes f: "fresh_uuids evs"
  shows "case map_of (operations (run evs new_VeedQueue)) i of
           None \<Rightarrow> cancel i now (run evs new_VeedQueue) = (OperationNotFound, run evs new_VeedQueue)
         | Some op \<Rightarrow>
             if status op \<noteq> QUEUED
             then cancel i now (run evs new_VeedQueue)
                    = (CannotCancel (status op), run evs new_VeedQueue)
             else fst (cancel i now (run evs new_VeedQueue)) = CancelSuccess \<and>
                  i \<in> set (queue (run evs new_VeedQueue)) \<and>
                  queue (snd (cancel i now (run evs new_VeedQueue)))
                    = remove1 i (queue (run evs new_VeedQueue)) \<and>
                  i \<notin> set (queue (snd (cancel i now (run evs new_VeedQueue)))) \<and>
                  map_of (operations (snd (cancel i now (run evs new_VeedQueue)))) i =
                    Some (op\<lparr>status := FAILED, error := Some ''Cancelled by user'',
                             updatedAt := now\<rparr>) \<and>
                  (\<forall>j. j \<noteq> i \<longrightarrow>
                     map_of (operations (snd (cancel i now (run evs new_VeedQueue)))) j =
                     map_of (operations (run evs new_VeedQueue)) j)"
proof -
  let ?s = "run evs new_VeedQueue"
  note qo = wf_parts(2)[OF reachable_wf(1)[OF f]]
  show ?thesis
  proof (cases "map_of (operations ?s) i")
    case None
    then show ?thesis by (simp add: cancel_def)
  next
    case (Some op)
    show ?thesis
    proof (cases "status op = QUEUED")
      case False
      then show ?thesis using Some by (simp add: cancel_def)
    next
      case True
      then have iq: "i \<in> set (queue ?s)"
        using queue_ok_mem[OF qo, of i] Some by (simp add: status_in_def)
      have d: "distinct (queue ?s)" using qo by (simp add: queue_ok_def)
      show ?thesis using Some True iq d
        by (simp add: cancel_def lookup_map_entry)
    qed
  qed
qed

theorem cancel_contract_witness:
  "fresh_uuids run_three_waiting \<and>
   fst (cancel ''B'' 40 (run run_three_waiting new_VeedQueue)) = CancelSuccess \<and>
   queue (snd (cancel ''B'' 40 (run run_three_waiting new_VeedQueue))) = [''A'', ''C''] \<and>
   fst (cancel ''B'' 50 (snd (cancel ''B'' 40 (run run_three_waiting new_VeedQueue))))
     = CannotCancel FAILED \<and>
   fst (cancel ''Z'' 40 (run run_three_waiting new_VeedQueue)) = OperationNotFound"
proof -
  have h: "fresh_uuids run_three_waiting"
    by (simp add: fresh_uuids_def uuids_def run_three_waiting_def)
  have l: "map_of (operations (run run_three_waiting new_VeedQueue)) ''B'' =
      Some \<lparr>op_id = ''B'', status = QUEUED, imageUrl = ''img'', prompt = ''go'',
            options = ''{}'', createdAt = 20, updatedAt = 20, position = 2, result = None,
            error = None, progress = None\<rparr>"
    and z: "map_of (operations (run run_three_waiting new_VeedQueue)) ''Z'' = None"
    and q: "queue (run run_three_waiting new_VeedQueue) = [''A'', ''B'', ''C'']"
    by (simp_all add: run_three_waiting_def eval_simps)
  have 1: "fst (cancel ''B'' 40 (run run_three_waiting new_VeedQueue)) = CancelSuccess"
    and 2: "queue (snd (cancel ''B'' 40 (run run_three_waiting new_VeedQueue))) = [''A'', ''C'']"
    using cancel_contract[OF h, of "''B''" 40] unfolding l q by simp_all
  have 3: "fst (cancel ''Z'' 40 (run run_three_waiting new_VeedQueue)) = OperationNotFound"
    using cancel_contract[OF h, of "''Z''" 40] unfolding z by simp
  have 4: "fst (cancel ''B'' 50 (snd (cancel ''B'' 40 (run run_three_waiting new_VeedQueue))))
     = CannotCancel FAILED"
    by (simp add: cancel_def l lookup_map_entry)
  show ?thesis by (intro conjI h 1 2 3 4)
qed

theorem cancel_error_counterexample:
  "map_option error
     (map_of (operations (snd (cancel ''B'' 40 (run run_three_waiting new_VeedQueue)))) ''B'')
     = Some (Some ''Cancelled by user'') \<and>
   map_option error
     (map_of (operations (snd (cancel ''B'' 40 (run run_three_waiting new_VeedQueue)))) ''B'')
     \<noteq> Some (Some ''cancelled by user'')"
  by (simp add: run_three_waiting_def eval_simps lookup_map_entry)

subsection \<open>C8: the status of an operation\<close>

lemma indexOf_first:
  "x \<in> set xs \<Longrightarrow> \<exists>n<length xs. xs ! n = x \<and> (\<forall>m<n. xs ! m \<noteq> x) \<and> indexOf xs x = int n"
proof (induction xs)
  case Nil
  then show ?case by simp
next
  case (Cons y ys)
  show ?case
  proof (cases "y = x")
    case True
    then show ?thesis by (intro exI[of _ 0]) simp
  next
    case False
    with Cons obtain n where n: "n < length ys" "ys ! n = x" "\<forall>m<n. ys ! m \<noteq> x" "indexOf ys x = int n"
      by auto
    show ?thesis
    proof (intro exI[of _ "Suc n"] conjI allI impI)
      show "Suc n < length (y # ys)" using n by simp
      show "(y # ys) ! Suc n = x" using n by simp
      show "indexOf (y # ys) x = int (Suc n)" using False n by (simp add: Let_def)
      fix m assume "m < Suc n"
      then show "(y # ys) ! m \<noteq> x" using False n(3) by (cases m) auto
    qed
  qed
qed

text \<open>
  Claim C8. \<^verbatim>\<open>getStatus(id)\<close> returns \<^verbatim>\<open>null\<close> when the store has no record for the id.
  Otherwise it returns a snapshot with the id, status, progress and timestamps of the
  record and the length of the pending queue; the position is the 1-based index of the
  id in the pending queue while the record is \<open>QUEUED\<close> and \<^verbatim>\<open>null\<close> otherwise; the
  result is present only when the status is \<open>COMPLETED\<close>, the error only when it is
  \<open>FAILED\<close>. The state of the queue is the same after the call.
\<close>

theorem getStatus_snapshot:
  assumes f: "fresh_uuids evs"
  shows "case map_of (operations (run evs new_VeedQueue)) i of
           None \<Rightarrow> getStatus i (run evs new_VeedQueue) = (None, run evs new_VeedQueue)
         | Some op \<Rightarrow>
             (\<exists>v. getStatus i (run evs new_VeedQueue) = (Some v, run evs new_VeedQueue) \<and>
                  v_operationId v = i \<and> v_status v = status op \<and>
                  v_queueLength v = length (queue (run evs new_VeedQueue)) \<and>
                  v_progress v = progress op \<and> v_createdAt v = createdAt op \<and>
                  v_updatedAt v = updatedAt op \<and> v_result v = result op \<and>
                  v_error v = error op \<and>
                  (v_result v \<noteq> None \<longrightarrow> v_status v = COMPLETED) \<and>
                  (v_error v \<noteq> None \<longrightarrow> v_status v = FAILED) \<and>
                  (if status op = QUEUED
                   then \<exists>n<length (queue (run evs new_VeedQueue)).
                          queue (run evs new_VeedQueue) ! n = i \<and> v_position v = Some (int n + 1)
                   else v_position v = None))"
proof -
  let ?s = "run evs new_VeedQueue"
  note p = wf_parts[OF reachable_wf(1)[OF f]]
  show ?thesis
  proof (cases "map_of (operations ?s) i")
    case None
    then show ?thesis by (simp add: getStatus_def)
  next
    case (Some op)
    then have r: "record_ok i op" using p(1) unfolding store_ok_def by blast
    have pos: "\<exists>n<length (queue ?s). queue ?s ! n = i \<and> indexOf (queue ?s) i + 1 = int n + 1"
      if "status op = QUEUED"
    proof -
      have "i \<in> set (queue ?s)" using queue_ok_mem[OF p(2), of i] Some that by (simp add: status_in_def)
      from indexOf_first[OF this] show ?thesis by auto
    qed
    show ?thesis using Some r pos
      by (auto simp add: getStatus_def record_ok_def)
  qed
qed


theorem getStatus_snapshot_witness:
  "fresh_uuids run_one_processing \<and>
   (\<exists>v. getStatus ''c'' (run run_one_processing new_VeedQueue)
          = (Some v, run run_one_processing new_VeedQueue) \<and>
        v_status v = QUEUED \<and> v_position v = Some 2 \<and> v_queueLength v = 2 \<and>
        v_result v = None \<and> v_error v = None) \<and>
   (\<exists>v. getStatus ''a'' (run run_one_processing new_VeedQueue)
          = (Some v, run run_one_processing new_VeedQueue) \<and>
        v_status v = PROCESSING \<and> v_position v = None) \<and>
   getStatus ''z'' (run run_one_processing new_VeedQueue)
     = (None, run run_one_processing new_VeedQueue)"
proof -
  have h: "fresh_uuids run_one_processing"
    by (simp add: fresh_uuids_def uuids_def run_one_processing_def)
  have c: "map_of (operations (run run_one_processing new_VeedQueue)) ''c'' =
      Some \<lparr>op_id = ''c'', status = QUEUED, imageUrl = ''img'', prompt = ''go'',
            options = ''{}'', createdAt = 40, updatedAt = 40, position = 2, result = None,
            error = None, progress = None\<rparr>"
    and a: "map_of (operations (run run_one_processing new_VeedQueue)) ''a'' =
      Some \<lparr>op_id = ''a'', status = PROCESSING, imageUrl = ''img'', prompt = ''go'',
            options = ''{}'', createdAt = 10, updatedAt = 30, position = 1, result = None,
            error = None, progress = None\<rparr>"
    and z: "map_of (operations (run run_one_processing new_VeedQueue)) ''z'' = None"
    and q: "queue (run run_one_processing new_VeedQueue) = [''b'', ''c'']"
    by (simp_all add: run_one_processing_def eval_simps)
  have n: "n < 2 \<Longrightarrow> [''b'', ''c''] ! n = ''c'' \<Longrightarrow> n = 1" for n :: nat
    by (cases n) auto
  have 1: "\<exists>v. getStatus ''c'' (run run_one_processing new_VeedQueue)
          = (Some v, run run_one_processing new_VeedQueue) \<and>
        v_status v = QUEUED \<and> v_position v = Some 2 \<and> v_queueLength v = 2 \<and>
        v_result v = None \<and> v_error v = None"
    using getStatus_snapshot[OF h, of "''c''"] n unfolding c q by fastforce
  have 2: "\<exists>v. getStatus ''a'' (run run_one_processing new_VeedQueue)
          = (Some v, run run_one_processing new_VeedQueue) \<and>
        v_status v = PROCESSING \<and> v_position v = None"
    using getStatus_snapshot[OF h, of "''a''"] unfolding a q by fastforce
  have 3: "getStatus ''z'' (run run_one_processing new_VeedQueue)
     = (None, run run_one_processing new_VeedQueue)"
    using getStatus_snapshot[OF h, of "''z''"] unfolding z by simp
  show ?thesis by (intro conjI h 1 2 3)
qed

subsection \<open>C9: the cleanup sweep\<close>

text \<open>
  Claim C9. A sweep at time \<open>now\<close> deletes exactly the records that are \<open>COMPLETED\<close> or
  \<open>FAILED\<close> and were last updated more than 30 minutes (1800000 ms) before \<open>now\<close>;
  \<^verbatim>\<open>getStatus\<close> then returns \<^verbatim>\<open>null\<close> for them. Every other record, so every \<open>QUEUED\<close>
  or \<open>PROCESSING\<close> record and every younger terminal record, is kept as it is and can
  still be retrieved. The pending queue and the current operation are untouched.
\<close>

theorem cleanup_sweep:
  assumes f: "fresh_uuids evs"
  shows "(case map_of (operations (run evs new_VeedQueue)) i of
            None \<Rightarrow> map_of (operations (cleanupOldOperations now (run evs new_VeedQueue))) i = None
          | Some op \<Rightarrow>
              if (status op = COMPLETED \<or> status op = FAILED) \<and> now - updatedAt op > 1800000
              then map_of (operations (cleanupOldOperations now (run evs new_VeedQueue))) i = None \<and>
                   fst (getStatus i (cleanupOldOperations now (run evs new_VeedQueue))) = None
              else map_of (operations (cleanupOldOperations now (run evs new_VeedQueue))) i = Some op \<and>
                   fst (getStatus i (cleanupOldOperations now (run evs new_VeedQueue))) \<noteq> None) \<and>
         queue (cleanupOldOperations now (run evs new_VeedQueue)) = queue (run evs new_VeedQueue) \<and>
         currentOperation (cleanupOldOperations now (run evs new_VeedQueue))
           = currentOperation (run evs new_VeedQueue)"
proof -
  let ?s = "run evs new_VeedQueue"
  have d: "distinct (map fst (operations ?s))"
    using wf_parts(1)[OF reachable_wf(1)[OF f]] by (simp add: store_ok_def)
  note lk = cleanupOldOperations_lookup[OF d, of now i]
  have q: "queue (cleanupOldOperations now ?s) = queue ?s"
    "currentOperation (cleanupOldOperations now ?s) = currentOperation ?s"
    by (simp_all add: cleanupOldOperations_def Let_def)
  show ?thesis unfolding q
    by (cases "map_of (operations ?s) i")
       (simp_all add: lk getStatus_def expired_def operationTTL_def)
qed

theorem cleanup_sweep_witness:
  "fresh_uuids run_two_finished \<and>
   map (\<lambda>(i, op). (i, status op, updatedAt op)) (operations (run run_two_finished new_VeedQueue))
     = [(''A'', COMPLETED, 60000), (''B'', COMPLETED, 1000000), (''C'', PROCESSING, 1000000)] \<and>
   fst (getStatus ''A'' (cleanupOldOperations 1860001 (run run_two_finished new_VeedQueue))) = None \<and>
   fst (getStatus ''B'' (cleanupOldOperations 1860001 (run run_two_finished new_VeedQueue))) \<noteq> None \<and>
   fst (getStatus ''C'' (cleanupOldOperations 99999999 (run run_two_finished new_VeedQueue))) \<noteq> None"
proof -
  have h: "fresh_uuids run_two_finished"
    by (simp add: fresh_uuids_def uuids_def run_two_finished_def)
  have m: "map (\<lambda>(i, op). (i, status op, updatedAt op)) (operations (run run_two_finished new_VeedQueue))
     = [(''A'', COMPLETED, 60000), (''B'', COMPLETED, 1000000), (''C'', PROCESSING, 1000000)]"
    by (simp add: run_two_finished_def eval_simps)
  have a: "map_option (\<lambda>op. (status op, updatedAt op))
             (map_of (operations (run run_two_finished new_VeedQueue)) ''A'') = Some (COMPLETED, 60000)"
    and b: "map_option (\<lambda>op. (status op, updatedAt op))
             (map_of (operations (run run_two_finished new_VeedQueue)) ''B'') = Some (COMPLETED, 1000000)"
    and c: "map_option (\<lambda>op. (status op, updatedAt op))
             (map_of (operations (run run_two_finished new_VeedQueue)) ''C'') = Some (PROCESSING, 1000000)"
    by (simp_all add: run_two_finished_def eval_simps)
  have 1: "fst (getStatus ''A'' (cleanupOldOperations 1860001 (run run_two_finished new_VeedQueue))) = None"
    using cleanup_sweep[OF h, where i = "''A''" and now = 1860001] a by (auto split: option.splits if_splits)
  have 2: "fst (getStatus ''B'' (cleanupOldOperations 1860001 (run run_two_finished new_VeedQueue))) \<noteq> None"
    using cleanup_sweep[OF h, where i = "''B''" and now = 1860001] b by (auto split: option.splits if_splits)
  have 3: "fst (getStatus ''C'' (cleanupOldOperations 99999999 (run run_two_finished new_VeedQueue))) \<noteq> None"
    using cleanup_sweep[OF h, where i = "''C''" and now = 99999999] c by (auto split: option.splits if_splits)
  show ?thesis by (intro conjI h m 1 2 3)
qed

subsection \<open>C10: a result that arrives after the timeout\<close>

text \<open>
  Claim C10. When the timeout fires while the drain loop waits for operation \<open>i\<close>, the
  record of \<open>i\<close> is \<open>FAILED\<close> with the error "Operation timed out" and no result, and it
  stays so under every later event, in particular when the executor call for \<open>i\<close>,
  which is still running, settles with a result: as long as the record exists, its
  status is not \<open>COMPLETED\<close> and its result stays \<^verbatim>\<open>null\<close>.
\<close>

theorem late_result_discarded:
  assumes f: "fresh_uuids (evs1 @ TimerFired i now # evs2)"
    and w: "worker (run evs1 new_VeedQueue) = AwaitExec i"
  shows "case map_of (operations (run (evs1 @ TimerFired i now # evs2) new_VeedQueue)) i of
           None \<Rightarrow> True
         | Some op \<Rightarrow>
             status op = FAILED \<and> error op = Some ''Operation timed out'' \<and> result op = None"
proof -
  let ?s1 = "run evs1 new_VeedQueue"
  let ?s2 = "step (TimerFired i now) ?s1"
  have "uuids (evs1 @ TimerFired i now # evs2) = uuids evs1 @ uuids evs2"
    by (simp add: uuids_def)
  with f have f1: "fresh_uuids evs1" and f2: "fresh_uuids evs2"
    and dj: "set (uuids evs1) \<inter> set (uuids evs2) = {}"
    by (auto simp: fresh_uuids_def)
  note c = reachable_wf[OF f1]
  note p = wf_parts[OF c(1)]
  have cur: "currentOperation ?s1 = Some i" using worker_ok_current(1)[OF p(4)] w by simp
  then have tm: "map_of (timers ?s1) i = Some operationTimeout"
    using p(5) unfolding pending_ok_def by simp
  have e: "?s2 = race_settled i (Inl ''Operation timed out'') now
                   (?s1\<lparr>timers := AList.delete i (timers ?s1)\<rparr>)"
    using tm by simp
  from race_settled_failed(1)[OF c(1) w, of "?s1\<lparr>timers := AList.delete i (timers ?s1)\<rparr>"
      "''Operation timed out''" now]
  obtain op0 where op0: "map_of (operations ?s1) i = Some op0" "status op0 = PROCESSING"
    "map_of (operations ?s2) i =
       Some (op0\<lparr>status := FAILED, error := Some ''Operation timed out'', updatedAt := now\<rparr>)"
    unfolding e by auto
  have "record_ok i op0" using p(1) op0(1) unfolding store_ok_def by blast
  then have r0: "result op0 = None" using op0(2) by (auto simp: record_ok_def)
  have c2: "consistent ?s2" by (rule step_wf[OF c(1)]) simp
  have k2: "known ?s2 \<subseteq> known ?s1" using step_known[OF c(1), of "TimerFired i now"] by simp
  have ik: "i \<in> known ?s1" using op0(1) by (auto simp: known_def dest: map_of_SomeD intro: rev_image_eqI)
  have "case map_of (operations (run evs2 ?s2)) i of
           None \<Rightarrow> True
         | Some op \<Rightarrow>
             status op = FAILED \<and> error op = Some ''Operation timed out'' \<and> result op = None"
  proof (rule run_failed_stable[OF c2])
    show "distinct (uuids evs2)" "[] \<notin> set (uuids evs2)" using f2 by (simp_all add: fresh_uuids_def)
    show "set (uuids evs2) \<inter> known ?s2 = {}" using k2 c(2) dj by blast
    show "i \<notin> set (uuids evs2)" using ik c(2) dj by blast
    show "case map_of (operations ?s2) i of None \<Rightarrow> True
          | Some op \<Rightarrow> status op = FAILED \<and> error op = Some ''Operation timed out'' \<and> result op = None"
      using op0(3) r0 by simp
  qed
  then show ?thesis by (simp add: run_append run_Cons)
qed

theorem late_result_discarded_witness:
  "fresh_uuids (run_until_processing @ TimerFired ''A'' 300030 #
                  [ExecSettled ''A'' (Inr ''video.mp4'') 400000]) \<and>
   worker (run run_until_processing new_VeedQueue) = AwaitExec ''A'' \<and>
   map_of (executing (run (run_until_processing @ [TimerFired ''A'' 300030]) new_VeedQueue)) ''A''
     = Some AwaitGenerate \<and>
   (case map_of (operations (run (run_until_processing @ TimerFired ''A'' 300030 #
                  [ExecSettled ''A'' (Inr ''video.mp4'') 400000]) new_VeedQueue)) ''A'' of
      None \<Rightarrow> False
    | Some op \<Rightarrow>
        status op = FAILED \<and> error op = Some ''Operation timed out'' \<and> result op = None)"
proof -
  have h: "fresh_uuids (run_until_processing @ TimerFired ''A'' 300030 #
                  [ExecSettled ''A'' (Inr ''video.mp4'') 400000])"
    by (simp add: fresh_uuids_def uuids_def run_until_processing_def)
  have w: "worker (run run_until_processing new_VeedQueue) = AwaitExec ''A''"
    by (simp add: run_until_processing_def eval_simps)
  have x: "map_of (executing (run (run_until_processing @ [TimerFired ''A'' 300030]) new_VeedQueue)) ''A''
     = Some AwaitGenerate"
    by (simp add: run_until_processing_def eval_simps)
  have n: "map_of (operations (run (run_until_processing @ TimerFired ''A'' 300030 #
                  [ExecSettled ''A'' (Inr ''video.mp4'') 400000]) new_VeedQueue)) ''A'' \<noteq> None"
    by (simp add: run_until_processing_def eval_simps)
  show ?thesis using h w x n late_result_discarded[OF h w]
    by (auto split: option.splits)
qed

end
